theory Spec2Isabelle
  imports Complex_Main "HOL-Library.Product_Lexorder"
begin

section \<open>Text extraction (pdf_processor.py)\<close>

subsection \<open>String primitives used by \<open>_clean_text\<close>\<close>

text \<open>
  A Python \<open>str\<close> is a sequence of code points. It is modelled as a \<open>string\<close>
  (a list of \<open>char\<close>), one \<open>char\<close> per code point below 256, so \<open>length\<close> is
  Python's \<open>len\<close>. \<open>is_space\<close> is the whitespace class of the regular expression
  \<open>\s\<close> and of \<open>str.strip()\<close> on that range: code points 9..13, 28..31, 32, 133
  and 160.
\<close>

definition is_space :: "char \<Rightarrow> bool" where
  "is_space c = ((of_char c :: nat) \<in> {9, 10, 11, 12, 13, 28, 29, 30, 31, 32, 133, 160})"

text \<open>\<open>re.sub(r'\s+', ' ', text)\<close>: every maximal run of whitespace becomes one space.\<close>

function sub_ws :: "string \<Rightarrow> string" where
  "sub_ws [] = []"
| "sub_ws (c # cs) =
     (if is_space c then CHR '' '' # sub_ws (dropWhile is_space cs) else c # sub_ws cs)"
  by pat_completeness auto
termination
  by (relation "measure length") (auto simp: length_dropWhile_le less_Suc_eq_le)

text \<open>\<open>s.split(sep)\<close> for a one-character separator: never an empty list.\<close>

fun split_on :: "char \<Rightarrow> string \<Rightarrow> string list" where
  "split_on sep [] = [[]]"
| "split_on sep (c # cs) =
     (if c = sep then [] # split_on sep cs
      else (case split_on sep cs of
              [] \<Rightarrow> [[c]]
            | l # ls \<Rightarrow> (c # l) # ls))"

text \<open>\<open>sep.join(parts)\<close>.\<close>

fun join_on :: "char \<Rightarrow> string list \<Rightarrow> string" where
  "join_on sep [] = []"
| "join_on sep [p] = p"
| "join_on sep (p # q # ps) = p @ sep # join_on sep (q # ps)"

text \<open>\<open>line.strip()\<close>: whitespace removed at both ends.\<close>

definition strip :: "string \<Rightarrow> string" where
  "strip s = rev (dropWhile is_space (rev (dropWhile is_space s)))"

subsection \<open>\<open>PDFProcessor._clean_text\<close>\<close>

text \<open>
  The loop over \<open>lines\<close> with its two variables \<open>cleaned_lines\<close> and \<open>prev_empty\<close>:
  a non-empty line is appended; an empty line is appended only when the previous line was
  not empty.
\<close>

fun collapse_blank :: "string list \<Rightarrow> string list \<Rightarrow> bool \<Rightarrow> string list" where
  "collapse_blank [] cleaned_lines prev_empty = cleaned_lines"
| "collapse_blank (line # lines) cleaned_lines prev_empty =
     (if line \<noteq> [] then collapse_blank lines (cleaned_lines @ [line]) False
      else if \<not> prev_empty then collapse_blank lines (cleaned_lines @ [[]]) True
      else collapse_blank lines cleaned_lines prev_empty)"

definition clean_text :: "string \<Rightarrow> string" where
  "clean_text text =
     (if text = [] then []
      else
        let text' = sub_ws text;
            lines = map strip (split_on CHR ''\<newline>'' text')
        in join_on CHR ''\<newline>'' (collapse_blank lines [] False))"

subsection \<open>\<open>PDFProcessor.extract_text\<close>\<close>

text \<open>
  The PDF library is outside the program. A page's \<open>extract_text()\<close> either raises
  (\<open>Inl\<close> of the exception's message), returns \<open>None\<close> (\<open>Inr None\<close>) or returns a
  string (\<open>Inr (Some s)\<close>). Opening a path either raises or gives the pages of the
  document. The world is the table of files together with the log of the paths opened so
  far, so that every call of \<open>pdfplumber.open\<close> is visible.
\<close>

type_synonym raw_page = "string + string option"

record world =
  files :: "string \<Rightarrow> string + raw_page list"
  opened :: "string list"

record extracted_page =
  page_no :: nat
  page_text :: string
  page_lines :: "string list"

record extracted_document =
  full_text :: string
  pages :: "extracted_page list"
  total_pages :: nat
  total_lines :: nat
  total_chars :: nat

text \<open>
  The loop \<open>for page_num, page in enumerate(pdf.pages, 1)\<close> with the two lists it
  appends to. \<open>if page_text:\<close> is false for \<open>None\<close> and for the empty string.
\<close>

fun extract_pages ::
  "nat \<Rightarrow> raw_page list \<Rightarrow> string list \<Rightarrow> extracted_page list
   \<Rightarrow> string + (string list \<times> extracted_page list)" where
  "extract_pages page_num [] text_content pages_data = Inr (text_content, pages_data)"
| "extract_pages page_num (p # ps) text_content pages_data =
     (case p of
        Inl e \<Rightarrow> Inl e
      | Inr None \<Rightarrow> extract_pages (page_num + 1) ps text_content pages_data
      | Inr (Some t) \<Rightarrow>
          if t = [] then extract_pages (page_num + 1) ps text_content pages_data
          else
            let cleaned_text = clean_text t
            in extract_pages (page_num + 1) ps (text_content @ [cleaned_text])
                 (pages_data @
                    [\<lparr>page_no = page_num, page_text = cleaned_text,
                      page_lines = split_on CHR ''\<newline>'' cleaned_text\<rparr>]))"

text \<open>
  Every exception raised inside the \<open>try\<close> block is caught and raised again as
  \<open>Exception(f"Error al procesar PDF: {str(e)}")\<close>.
\<close>

definition wrap_error :: "string \<Rightarrow> string" where
  "wrap_error e = ''Error al procesar PDF: '' @ e"

definition extract_text :: "world \<Rightarrow> string \<Rightarrow> (string + extracted_document) \<times> world" where
  "extract_text w pdf_path =
     (let w' = w\<lparr>opened := opened w @ [pdf_path]\<rparr>
      in case files w pdf_path of
           Inl e \<Rightarrow> (Inl (wrap_error e), w')
         | Inr pdf_pages \<Rightarrow>
             (case extract_pages 1 pdf_pages [] [] of
                Inl e \<Rightarrow> (Inl (wrap_error e), w')
              | Inr (text_content, pages_data) \<Rightarrow>
                  let full = join_on CHR ''\<newline>'' text_content
                  in (Inr \<lparr>full_text = full,
                            pages = pages_data,
                            total_pages = length pdf_pages,
                            total_lines = length (split_on CHR ''\<newline>'' full),
                            total_chars = length full\<rparr>, w')))"

section \<open>Sequence alignment (difflib.SequenceMatcher)\<close>

text \<open>
  \<open>compare_documents\<close> builds \<open>difflib.SequenceMatcher(None, lines1, lines2)\<close>: no junk
  predicate, and the default \<open>autojunk=True\<close>. The functions below follow the
  standard library's \<open>difflib.py\<close> for that configuration. Indices are counted from 0 by
  the library and never negative, so they are natural numbers.
\<close>

subsection \<open>\<open>__chain_b\<close>\<close>

text \<open>
  \<open>b2j\<close> maps an element of \<open>b\<close> to the increasing list of its positions. A key that
  is absent is read with \<open>b2j.get(elt, [])\<close>, so the dictionary is a function that
  returns the empty list for it. With no junk predicate the junk set stays empty. When
  \<open>b\<close> has at least 200 elements, an element with more than \<open>n // 100 + 1\<close>
  positions is popular and is deleted from \<open>b2j\<close>.
\<close>

fun b2j_build :: "nat \<Rightarrow> 'a list \<Rightarrow> ('a \<Rightarrow> nat list) \<Rightarrow> ('a \<Rightarrow> nat list)" where
  "b2j_build i [] b2j = b2j"
| "b2j_build i (elt # rest) b2j = b2j_build (i + 1) rest (b2j(elt := b2j elt @ [i]))"

definition popular :: "'a list \<Rightarrow> 'a \<Rightarrow> bool" where
  "popular b elt =
     (let n = length b
      in n \<ge> 200 \<and> length (b2j_build 0 b (\<lambda>_. []) elt) > n div 100 + 1)"

definition chain_b :: "'a list \<Rightarrow> 'a \<Rightarrow> nat list" where
  "chain_b b elt = (if popular b elt then [] else b2j_build 0 b (\<lambda>_. []) elt)"

subsection \<open>\<open>find_longest_match\<close>\<close>

text \<open>
  The inner loop \<open>for j in b2j.get(a[i], nothing)\<close> with its \<open>continue\<close> and
  \<open>break\<close>. The state is \<open>newj2len\<close> and the best block so far.
  \<open>j2lenget(j-1, 0)\<close> reads key \<open>-1\<close> when \<open>j = 0\<close>, which is never present.
  The new start \<open>i-k+1\<close> is written \<open>i + 1 - k\<close>: \<open>k\<close> never exceeds \<open>i + 1\<close>.
\<close>

type_synonym best = "nat \<times> nat \<times> nat"

definition j2lenget :: "(nat \<rightharpoonup> nat) \<Rightarrow> nat \<Rightarrow> nat" where
  "j2lenget j2len j =
     (if j = 0 then 0 else (case j2len (j - 1) of None \<Rightarrow> 0 | Some v \<Rightarrow> v))"

fun flm_inner ::
  "nat \<Rightarrow> nat \<Rightarrow> nat \<Rightarrow> (nat \<rightharpoonup> nat) \<Rightarrow> nat list
   \<Rightarrow> (nat \<rightharpoonup> nat) \<times> best \<Rightarrow> (nat \<rightharpoonup> nat) \<times> best" where
  "flm_inner blo bhi i j2len [] st = st"
| "flm_inner blo bhi i j2len (j # js) (newj2len, besti, bestj, bestsize) =
     (if j < blo then flm_inner blo bhi i j2len js (newj2len, besti, bestj, bestsize)
      else if j \<ge> bhi then (newj2len, besti, bestj, bestsize)
      else
        let k = j2lenget j2len j + 1
        in if k > bestsize
           then flm_inner blo bhi i j2len js (newj2len(j \<mapsto> k), i + 1 - k, j + 1 - k, k)
           else flm_inner blo bhi i j2len js (newj2len(j \<mapsto> k), besti, bestj, bestsize))"

text \<open>One iteration of \<open>for i in range(alo, ahi)\<close>.\<close>

definition flm_row ::
  "'a list \<Rightarrow> 'a list \<Rightarrow> nat \<Rightarrow> nat \<Rightarrow> nat \<Rightarrow> (nat \<rightharpoonup> nat) \<times> best \<Rightarrow> (nat \<rightharpoonup> nat) \<times> best" where
  "flm_row a b blo bhi i st =
     (case st of (j2len, bst) \<Rightarrow> flm_inner blo bhi i j2len (chain_b b (a ! i)) (Map.empty, bst))"

text \<open>The two loops that extend the best block by equal elements at each end.\<close>

function extend_left :: "'a list \<Rightarrow> 'a list \<Rightarrow> nat \<Rightarrow> nat \<Rightarrow> best \<Rightarrow> best" where
  "extend_left a b alo blo (besti, bestj, bestsize) =
     (if besti > alo \<and> bestj > blo \<and> a ! (besti - 1) = b ! (bestj - 1)
      then extend_left a b alo blo (besti - 1, bestj - 1, bestsize + 1)
      else (besti, bestj, bestsize))"
  by pat_completeness auto
termination
  by (relation "measure (\<lambda>(a, b, alo, blo, besti, bestj, bestsize). besti)") auto

function extend_right :: "'a list \<Rightarrow> 'a list \<Rightarrow> nat \<Rightarrow> nat \<Rightarrow> best \<Rightarrow> best" where
  "extend_right a b ahi bhi (besti, bestj, bestsize) =
     (if besti + bestsize < ahi \<and> bestj + bestsize < bhi
         \<and> a ! (besti + bestsize) = b ! (bestj + bestsize)
      then extend_right a b ahi bhi (besti, bestj, bestsize + 1)
      else (besti, bestj, bestsize))"
  by pat_completeness auto
termination
  by (relation "measure (\<lambda>(a, b, ahi, bhi, besti, bestj, bestsize). ahi - (besti + bestsize))")
     auto

declare extend_left.simps [simp del] extend_right.simps [simp del]

text \<open>
  The last two loops of the library extend the block by junk elements; their condition
  \<open>isbjunk(b[...])\<close> is false for every element since the junk set is empty, so they
  leave the block as it is.
\<close>

definition find_longest_match :: "'a list \<Rightarrow> 'a list \<Rightarrow> nat \<Rightarrow> nat \<Rightarrow> nat \<Rightarrow> nat \<Rightarrow> best" where
  "find_longest_match a b alo ahi blo bhi =
     (case fold (flm_row a b blo bhi) [alo..<ahi] (Map.empty, alo, blo, 0) of
        (j2len, bst) \<Rightarrow> extend_right a b ahi bhi (extend_left a b alo blo bst))"

subsection \<open>The block returned by \<open>find_longest_match\<close>\<close>

text \<open>
  Facts about \<open>__chain_b\<close> and \<open>find_longest_match\<close> that the termination of
  \<open>get_matching_blocks\<close> rests on: the positions listed for an element are positions of
  that element, and the block returned lies inside the window it was searched in and joins
  equal elements.
\<close>

lemma b2j_build_eq:
  "b2j_build i xs m x = m x @ map (\<lambda>p. i + p) (filter (\<lambda>p. xs ! p = x) [0..<length xs])"
proof (induction xs arbitrary: i m)
  case Nil
  then show ?case by simp
next
  case (Cons e rest)
  have upt: "[0..<length (e # rest)] = 0 # map Suc [0..<length rest]"
    by (simp add: upt_conv_Cons map_Suc_upt del: upt_Suc)
  show ?case
    unfolding b2j_build.simps Cons.IH upt
    by (simp add: filter_map comp_def)
qed

lemma chain_b_subset: "j \<in> set (chain_b b x) \<Longrightarrow> j < length b \<and> b ! j = x"
  by (auto simp: chain_b_def b2j_build_eq split: if_splits)

lemma chain_b_sorted: "sorted_wrt (<) (chain_b b x)"
  by (auto simp: chain_b_def b2j_build_eq sorted_wrt_filter)

lemma chain_b_complete:
  "\<not> popular b x \<Longrightarrow> j < length b \<Longrightarrow> b ! j = x \<Longrightarrow> j \<in> set (chain_b b x)"
  by (auto simp: chain_b_def b2j_build_eq)

definition entry_ok :: "'a list \<Rightarrow> 'a list \<Rightarrow> nat \<Rightarrow> nat \<Rightarrow> nat \<Rightarrow> nat \<Rightarrow> (nat \<rightharpoonup> nat) \<Rightarrow> bool" where
  "entry_ok a b alo blo bhi i m =
     (\<forall>j v. m j = Some v \<longrightarrow>
        0 < v \<and> alo + v \<le> i \<and> blo + v \<le> j + 1 \<and> j < bhi
        \<and> (\<forall>t<v. a ! (i - v + t) = b ! (j + 1 - v + t)))"

definition best_ok :: "'a list \<Rightarrow> 'a list \<Rightarrow> nat \<Rightarrow> nat \<Rightarrow> nat \<Rightarrow> nat \<Rightarrow> best \<Rightarrow> bool" where
  "best_ok a b alo ahi blo bhi bst =
     (case bst of (bi, bj, bs) \<Rightarrow>
        alo \<le> bi \<and> blo \<le> bj
        \<and> (if bs = 0 then bi = alo \<and> bj = blo else bi + bs \<le> ahi \<and> bj + bs \<le> bhi)
        \<and> (\<forall>t<bs. a ! (bi + t) = b ! (bj + t)))"

lemma entry_ok_empty: "entry_ok a b alo blo bhi i Map.empty"
  by (simp add: entry_ok_def)

lemma new_entry:
  assumes "entry_ok a b alo blo bhi i m" "alo \<le> i" "blo \<le> j" "b ! j = a ! i"
  defines "k \<equiv> j2lenget m j + 1"
  shows "0 < k \<and> alo + k \<le> Suc i \<and> blo + k \<le> j + 1
         \<and> (\<forall>t<k. a ! (Suc i - k + t) = b ! (j + 1 - k + t))"
proof (cases "j = 0 \<or> m (j - 1) = None")
  case True
  then have "j2lenget m j = 0" by (auto simp: j2lenget_def)
  then show ?thesis using assms by simp
next
  case False
  then obtain v where v: "m (j - 1) = Some v" and j: "0 < j" by auto
  then have k: "k = Suc v" by (simp add: j2lenget_def k_def)
  from assms(1)[unfolded entry_ok_def, rule_format, OF v] j
  have e: "0 < v" "alo + v \<le> i" "blo + v \<le> j" 
    "\<forall>t<v. a ! (i - v + t) = b ! (j - v + t)"
    by auto
  have "a ! (Suc i - Suc v + t) = b ! (j + 1 - Suc v + t)" if "t < Suc v" for t
  proof (cases "t < v")
    case True
    then show ?thesis using e by simp
  next
    case False
    then have "t = v" using that by simp
    then show ?thesis using e assms(4) by simp
  qed
  then show ?thesis using e k by simp
qed

lemma flm_inner_ok:
  assumes "entry_ok a b alo blo bhi i j2len" "alo \<le> i" "i < ahi"
    "\<forall>j\<in>set js. b ! j = a ! i"
    "entry_ok a b alo blo bhi (Suc i) newj2len"
    "best_ok a b alo ahi blo bhi bst"
  shows "entry_ok a b alo blo bhi (Suc i) (fst (flm_inner blo bhi i j2len js (newj2len, bst)))
       \<and> best_ok a b alo ahi blo bhi (snd (flm_inner blo bhi i j2len js (newj2len, bst)))"
  using assms(4-6)
proof (induction js arbitrary: newj2len bst)
  case Nil
  then show ?case by simp
next
  case (Cons j js)
  obtain besti bestj bestsize where bst: "bst = (besti, bestj, bestsize)"
    by (cases bst) auto
  show ?case
  proof (cases "j < blo \<or> bhi \<le> j")
    case True
    then show ?thesis using Cons bst by auto
  next
    case False
    define k where "k = j2lenget j2len j + 1"
    from False have jb: "blo \<le> j" "j < bhi" by auto
    have bj: "b ! j = a ! i" using Cons.prems(1) by simp
    have "0 < k \<and> alo + k \<le> Suc i \<and> blo + k \<le> j + 1
         \<and> (\<forall>t<k. a ! (Suc i - k + t) = b ! (j + 1 - k + t))"
      unfolding k_def by (rule new_entry[OF assms(1) assms(2) jb(1) bj])
    then have ne: "0 < k" "alo + k \<le> Suc i" "blo + k \<le> j + 1"
      "\<forall>t<k. a ! (Suc i - k + t) = b ! (j + 1 - k + t)"
      by blast+
    have e': "entry_ok a b alo blo bhi (Suc i) (newj2len(j \<mapsto> k))"
      using Cons.prems(2) ne jb by (auto simp: entry_ok_def)
    have b': "best_ok a b alo ahi blo bhi (i + 1 - k, j + 1 - k, k)"
      using ne jb assms(3) by (auto simp: best_ok_def)
    have rest: "\<forall>j\<in>set js. b ! j = a ! i" using Cons.prems(1) by simp
    have step: "flm_inner blo bhi i j2len (j # js) (newj2len, besti, bestj, bestsize) =
        flm_inner blo bhi i j2len js
          (newj2len(j \<mapsto> k),
           if k > bestsize then (i + 1 - k, j + 1 - k, k) else (besti, bestj, bestsize))"
      using False by (simp add: k_def Let_def)
    have "best_ok a b alo ahi blo bhi
            (if k > bestsize then (i + 1 - k, j + 1 - k, k) else (besti, bestj, bestsize))"
      using b' Cons.prems(3) bst by simp
    from Cons.IH[OF rest e' this] show ?thesis
      unfolding bst step .
  qed
qed

lemma flm_row_ok:
  assumes "entry_ok a b alo blo bhi i (fst st)" "best_ok a b alo ahi blo bhi (snd st)"
    "alo \<le> i" "i < ahi"
  shows "entry_ok a b alo blo bhi (Suc i) (fst (flm_row a b blo bhi i st))
       \<and> best_ok a b alo ahi blo bhi (snd (flm_row a b blo bhi i st))"
proof -
  obtain j2len bst where st: "st = (j2len, bst)" by (cases st) auto
  have cb: "\<forall>j\<in>set (chain_b b (a ! i)). b ! j = a ! i"
    by (simp add: chain_b_subset)
  have e: "entry_ok a b alo blo bhi i j2len" and bo: "best_ok a b alo ahi blo bhi bst"
    using assms(1,2) st by simp_all
  have "flm_row a b blo bhi i st = flm_inner blo bhi i j2len (chain_b b (a ! i)) (Map.empty, bst)"
    by (simp add: flm_row_def st)
  with flm_inner_ok[OF e assms(3,4) cb entry_ok_empty bo]
  show ?thesis by simp
qed

lemma flm_fold_ok:
  assumes "entry_ok a b alo blo bhi i (fst st)" "best_ok a b alo ahi blo bhi (snd st)"
    "alo \<le> i" "i + n \<le> ahi"
  shows "best_ok a b alo ahi blo bhi (snd (fold (flm_row a b blo bhi) [i..<i + n] st))"
  using assms
proof (induction n arbitrary: i st)
  case 0
  then show ?case by simp
next
  case (Suc n)
  have u: "[i..<i + Suc n] = i # [Suc i..<Suc i + n]"
    by (simp add: upt_conv_Cons del: upt_Suc)
  from flm_row_ok[OF Suc.prems(1,2,3)] Suc.prems(4)
  have r: "entry_ok a b alo blo bhi (Suc i) (fst (flm_row a b blo bhi i st))"
    "best_ok a b alo ahi blo bhi (snd (flm_row a b blo bhi i st))" by auto
  show ?case unfolding u fold_simps
    by (rule Suc.IH[OF r]) (use Suc.prems in auto)
qed

lemma best_ok_left:
  assumes "best_ok a b alo ahi blo bhi (besti, bestj, bestsize)"
    "besti > alo" "bestj > blo" "a ! (besti - 1) = b ! (bestj - 1)"
  shows "best_ok a b alo ahi blo bhi (besti - 1, bestj - 1, bestsize + 1)"
proof -
  from assms(1) have m: "\<And>t. t < bestsize \<Longrightarrow> a ! (besti + t) = b ! (bestj + t)"
    and bnd: "bestsize \<noteq> 0 \<Longrightarrow> besti + bestsize \<le> ahi \<and> bestj + bestsize \<le> bhi"
    and z: "bestsize = 0 \<Longrightarrow> besti = alo"
    by (simp_all add: best_ok_def split: if_splits)
  from z assms(2) have nz: "bestsize \<noteq> 0" by auto
  have "a ! (besti - 1 + t) = b ! (bestj - 1 + t)" if "t < bestsize + 1" for t
  proof (cases t)
    case 0
    then show ?thesis using assms(4) by simp
  next
    case (Suc t')
    then have "t' < bestsize" using that by simp
    from m[OF this] show ?thesis using Suc assms(2,3) by simp
  qed
  then have "\<forall>t<bestsize + 1. a ! (besti - 1 + t) = b ! (bestj - 1 + t)" by blast
  moreover have "alo \<le> besti - 1" "blo \<le> bestj - 1" using assms(2,3) by auto
  moreover have "besti - 1 + (bestsize + 1) \<le> ahi" "bestj - 1 + (bestsize + 1) \<le> bhi"
    using bnd[OF nz] assms(2,3) by auto
  ultimately show ?thesis
    unfolding best_ok_def by simp
qed

lemma best_ok_right:
  assumes "best_ok a b alo ahi blo bhi (besti, bestj, bestsize)"
    "besti + bestsize < ahi" "bestj + bestsize < bhi"
    "a ! (besti + bestsize) = b ! (bestj + bestsize)"
  shows "best_ok a b alo ahi blo bhi (besti, bestj, bestsize + 1)"
proof -
  from assms(1) have m: "\<And>t. t < bestsize \<Longrightarrow> a ! (besti + t) = b ! (bestj + t)"
    and lo: "alo \<le> besti" "blo \<le> bestj"
    by (simp_all add: best_ok_def)
  have "a ! (besti + t) = b ! (bestj + t)" if "t < bestsize + 1" for t
  proof (cases "t = bestsize")
    case True
    then show ?thesis using assms(4) by simp
  next
    case False
    then have "t < bestsize" using that by simp
    from m[OF this] show ?thesis .
  qed
  then have "\<forall>t<bestsize + 1. a ! (besti + t) = b ! (bestj + t)" by blast
  moreover have "besti + (bestsize + 1) \<le> ahi" "bestj + (bestsize + 1) \<le> bhi"
    using assms(2,3) by auto
  ultimately show ?thesis
    using lo unfolding best_ok_def by simp
qed

lemma extend_left_ok:
  "best_ok a b alo ahi blo bhi bst \<Longrightarrow> best_ok a b alo ahi blo bhi (extend_left a b alo blo bst)"
proof (induction a b alo blo bst rule: extend_left.induct)
  case (1 a b alo blo besti bestj bestsize)
  show ?case
  proof (cases "besti > alo \<and> bestj > blo \<and> a ! (besti - 1) = b ! (bestj - 1)")
    case True
    then have "best_ok a b alo ahi blo bhi (besti - 1, bestj - 1, bestsize + 1)"
      using best_ok_left[OF 1(2)] by blast
    from 1(1)[OF True this] True show ?thesis by (subst extend_left.simps) simp
  next
    case False
    then have "extend_left a b alo blo (besti, bestj, bestsize) = (besti, bestj, bestsize)"
      by (subst extend_left.simps) auto
    then show ?thesis using 1(2) by simp
  qed
qed

lemma extend_right_ok:
  "best_ok a b alo ahi blo bhi bst \<Longrightarrow> best_ok a b alo ahi blo bhi (extend_right a b ahi bhi bst)"
proof (induction a b ahi bhi bst rule: extend_right.induct)
  case (1 a b ahi bhi besti bestj bestsize)
  show ?case
  proof (cases "besti + bestsize < ahi \<and> bestj + bestsize < bhi
         \<and> a ! (besti + bestsize) = b ! (bestj + bestsize)")
    case True
    then have "best_ok a b alo ahi blo bhi (besti, bestj, bestsize + 1)"
      using best_ok_right[OF 1(2)] by blast
    from 1(1)[OF True this] True show ?thesis by (subst extend_right.simps) simp
  next
    case False
    then have "extend_right a b ahi bhi (besti, bestj, bestsize) = (besti, bestj, bestsize)"
      by (subst extend_right.simps) auto
    then show ?thesis using 1(2) by simp
  qed
qed

lemma find_longest_match_ok:
  "best_ok a b alo ahi blo bhi (find_longest_match a b alo ahi blo bhi)"
proof -
  have init: "best_ok a b alo ahi blo bhi (alo, blo, 0)" by (simp add: best_ok_def)
  have "best_ok a b alo ahi blo bhi
          (snd (fold (flm_row a b blo bhi) [alo..<ahi] (Map.empty, alo, blo, 0)))"
  proof (cases "alo \<le> ahi")
    case True
    then have "[alo..<ahi] = [alo..<alo + (ahi - alo)]" by simp
    moreover have "best_ok a b alo ahi blo bhi
          (snd (fold (flm_row a b blo bhi) [alo..<alo + (ahi - alo)] (Map.empty, alo, blo, 0)))"
      by (rule flm_fold_ok) (use True init in \<open>auto simp: entry_ok_empty\<close>)
    ultimately show ?thesis by simp
  next
    case False
    then show ?thesis using init by simp
  qed
  then have "best_ok a b alo ahi blo bhi
          (extend_right a b ahi bhi (extend_left a b alo blo
             (snd (fold (flm_row a b blo bhi) [alo..<ahi] (Map.empty, alo, blo, 0)))))"
    by (intro extend_right_ok extend_left_ok)
  then show ?thesis
    by (simp add: find_longest_match_def split_beta)
qed

lemma find_longest_match_window:
  assumes "find_longest_match a b alo ahi blo bhi = (i, j, k)" "k \<noteq> 0"
  shows "alo \<le> i \<and> i + k \<le> ahi \<and> blo \<le> j \<and> j + k \<le> bhi"
  using find_longest_match_ok[of a b alo ahi blo bhi] assms
  by (simp add: best_ok_def)

subsection \<open>\<open>get_matching_blocks\<close>\<close>

text \<open>
  The work list \<open>queue\<close> is a stack: \<open>queue.pop()\<close> takes the element appended last.
  The head of the list is the top of the stack, so the window to the right of the block,
  appended last, comes first.
\<close>

function mb_loop ::
  "'a list \<Rightarrow> 'a list \<Rightarrow> (nat \<times> nat \<times> nat \<times> nat) list \<Rightarrow> best list \<Rightarrow> best list" where
  "mb_loop a b [] matching_blocks = matching_blocks"
| "mb_loop a b ((alo, ahi, blo, bhi) # queue) matching_blocks =
     (case find_longest_match a b alo ahi blo bhi of
        (i, j, k) \<Rightarrow>
          if k \<noteq> 0
          then mb_loop a b
                 ((if i + k < ahi \<and> j + k < bhi then [(i + k, ahi, j + k, bhi)] else [])
                  @ (if alo < i \<and> blo < j then [(alo, i, blo, j)] else [])
                  @ queue)
                 (matching_blocks @ [(i, j, k)])
          else mb_loop a b queue matching_blocks)"
  by pat_completeness auto
termination
proof (relation "measure (\<lambda>(a, b, queue, acc).
          sum_list (map (\<lambda>(alo, ahi, blo, bhi). 2 * (ahi - alo) + 1) queue))", goal_cases)
  case 1
  then show ?case by simp
next
  case (2 a b alo ahi blo bhi queue matching_blocks i y j k)
  then have m: "find_longest_match a b alo ahi blo bhi = (i, j, k)" and k: "0 < k"
    by simp_all
  from find_longest_match_window[OF m] k show ?case by auto
next
  case 3
  then show ?case by simp
qed

declare mb_loop.simps [simp del]

text \<open>
  The loop that merges adjacent blocks. Its state is the block \<open>(i1, j1, k1)\<close> compared
  against and the list \<open>non_adjacent\<close>; the two statements after the loop are the
  equation for the empty list.
\<close>

fun collapse_adjacent :: "best list \<Rightarrow> best \<Rightarrow> best list \<Rightarrow> best list" where
  "collapse_adjacent [] (i1, j1, k1) non_adjacent =
     (if k1 \<noteq> 0 then non_adjacent @ [(i1, j1, k1)] else non_adjacent)"
| "collapse_adjacent ((i2, j2, k2) # blocks) (i1, j1, k1) non_adjacent =
     (if i1 + k1 = i2 \<and> j1 + k1 = j2
      then collapse_adjacent blocks (i1, j1, k1 + k2) non_adjacent
      else collapse_adjacent blocks (i2, j2, k2)
             (if k1 \<noteq> 0 then non_adjacent @ [(i1, j1, k1)] else non_adjacent))"

text \<open>
  \<open>matching_blocks.sort()\<close> orders the triples lexicographically, which is the order
  of \<open>sort\<close> on triples of natural numbers.
\<close>

definition get_matching_blocks :: "'a list \<Rightarrow> 'a list \<Rightarrow> best list" where
  "get_matching_blocks a b =
     (let la = length a; lb = length b;
          matching_blocks = sort (mb_loop a b [(0, la, 0, lb)] [])
      in collapse_adjacent matching_blocks (0, 0, 0) [] @ [(la, lb, 0)])"

subsection \<open>\<open>get_opcodes\<close>\<close>

datatype tag = Replace | Delete | Insert | Equal

type_synonym opcode = "tag \<times> nat \<times> nat \<times> nat \<times> nat"

text \<open>The loop over the matching blocks; its state is \<open>i\<close>, \<open>j\<close> and \<open>answer\<close>.\<close>

fun opcodes_loop :: "best list \<Rightarrow> nat \<Rightarrow> nat \<Rightarrow> opcode list \<Rightarrow> opcode list" where
  "opcodes_loop [] i j answer = answer"
| "opcodes_loop ((ai, bj, sz) # blocks) i j answer =
     (let tag = (if i < ai \<and> j < bj then Some Replace
                 else if i < ai then Some Delete
                 else if j < bj then Some Insert
                 else None);
          answer1 = (case tag of None \<Rightarrow> answer | Some t \<Rightarrow> answer @ [(t, i, ai, j, bj)]);
          i' = ai + sz;
          j' = bj + sz;
          answer2 = (if sz \<noteq> 0 then answer1 @ [(Equal, ai, i', bj, j')] else answer1)
      in opcodes_loop blocks i' j' answer2)"

definition get_opcodes :: "'a list \<Rightarrow> 'a list \<Rightarrow> opcode list" where
  "get_opcodes a b = opcodes_loop (get_matching_blocks a b) 0 0 []"

subsection \<open>\<open>ratio\<close>\<close>

text \<open>
  \<open>_calculate_ratio\<close> returns \<open>2.0 * matches / length\<close>, one division of two integers
  rounded to the nearest double. It is modelled by the exact quotient: rounding is
  monotone and leaves 0 and 1 as they are.
\<close>

definition calculate_ratio :: "nat \<Rightarrow> nat \<Rightarrow> real" where
  "calculate_ratio matches len = (if len \<noteq> 0 then 2 * real matches / real len else 1)"

definition matches :: "'a list \<Rightarrow> 'a list \<Rightarrow> nat" where
  "matches a b = sum_list (map (\<lambda>(i, j, k). k) (get_matching_blocks a b))"

definition ratio :: "'a list \<Rightarrow> 'a list \<Rightarrow> real" where
  "ratio a b = calculate_ratio (matches a b) (length a + length b)"

section \<open>Comparison (document_comparator.py)\<close>

subsection \<open>Difference records\<close>

text \<open>
  A slice \<open>xs[i:j]\<close> with indices that are not negative: the bounds are clamped to the
  length of the list, and the slice is empty when \<open>j \<le> i\<close>.
\<close>

definition slice :: "'a list \<Rightarrow> nat \<Rightarrow> nat \<Rightarrow> 'a list" where
  "slice xs i j = take (j - i) (drop i xs)"

record diff_context =
  before_doc1 :: "string list"
  after_doc1 :: "string list"
  before_doc2 :: "string list"
  after_doc2 :: "string list"

text \<open>
  The dictionary built for a difference has the key \<open>type\<close> and, depending on it, the
  keys \<open>lines\<close> or \<open>old_lines\<close> and \<open>new_lines\<close>: one constructor for each of the three
  shapes, with the fields in the order position, lines, context.
\<close>

datatype difference =
    Modified nat "string list" "string list" diff_context
  | Deleted nat "string list" diff_context
  | Added nat "string list" diff_context

text \<open>\<open>d.get('lines', [])\<close>, \<open>d.get('old_lines', [])\<close> and \<open>d.get('new_lines', [])\<close>.\<close>

fun get_lines :: "difference \<Rightarrow> string list" where
  "get_lines (Modified p old new c) = []"
| "get_lines (Deleted p ls c) = ls"
| "get_lines (Added p ls c) = ls"

fun get_old_lines :: "difference \<Rightarrow> string list" where
  "get_old_lines (Modified p old new c) = old"
| "get_old_lines (Deleted p ls c) = []"
| "get_old_lines (Added p ls c) = []"

fun get_new_lines :: "difference \<Rightarrow> string list" where
  "get_new_lines (Modified p old new c) = new"
| "get_new_lines (Deleted p ls c) = []"
| "get_new_lines (Added p ls c) = []"

fun is_added :: "difference \<Rightarrow> bool" where
  "is_added (Added p ls c) = True"
| "is_added d = False"

fun is_deleted :: "difference \<Rightarrow> bool" where
  "is_deleted (Deleted p ls c) = True"
| "is_deleted d = False"

fun is_modified :: "difference \<Rightarrow> bool" where
  "is_modified (Modified p old new c) = True"
| "is_modified d = False"

fun position :: "difference \<Rightarrow> nat" where
  "position (Modified p old new c) = p"
| "position (Deleted p ls c) = p"
| "position (Added p ls c) = p"

fun context_of :: "difference \<Rightarrow> diff_context" where
  "context_of (Modified p old new c) = c"
| "context_of (Deleted p ls c) = c"
| "context_of (Added p ls c) = c"

subsection \<open>\<open>_get_context\<close> and \<open>_get_differences\<close>\<close>

text \<open>\<open>max(0, pos - context_size)\<close> is computed on integers, as in the source.\<close>

definition get_context ::
  "string list \<Rightarrow> string list \<Rightarrow> nat \<Rightarrow> nat \<Rightarrow> nat \<Rightarrow> diff_context" where
  "get_context lines1 lines2 pos1 pos2 context_size =
     \<lparr>before_doc1 = slice lines1 (nat (max 0 (int pos1 - int context_size))) pos1,
      after_doc1 = slice lines1 pos1 (min (length lines1) (pos1 + context_size)),
      before_doc2 = slice lines2 (nat (max 0 (int pos2 - int context_size))) pos2,
      after_doc2 = slice lines2 pos2 (min (length lines2) (pos2 + context_size))\<rparr>"

text \<open>
  One iteration of the loop over the opcodes: \<open>differences.append(...)\<close> for the tags
  \<open>replace\<close>, \<open>delete\<close> and \<open>insert\<close>, nothing for \<open>equal\<close>. The default
  \<open>context_size\<close> is 3.
\<close>

fun differences_step ::
  "string list \<Rightarrow> string list \<Rightarrow> opcode \<Rightarrow> difference list \<Rightarrow> difference list" where
  "differences_step lines1 lines2 (Replace, i1, i2, j1, j2) differences =
     differences @ [Modified i1 (slice lines1 i1 i2) (slice lines2 j1 j2)
                      (get_context lines1 lines2 i1 j1 3)]"
| "differences_step lines1 lines2 (Delete, i1, i2, j1, j2) differences =
     differences @ [Deleted i1 (slice lines1 i1 i2) (get_context lines1 lines2 i1 i1 3)]"
| "differences_step lines1 lines2 (Insert, i1, i2, j1, j2) differences =
     differences @ [Added j1 (slice lines2 j1 j2) (get_context lines1 lines2 i1 j1 3)]"
| "differences_step lines1 lines2 (Equal, i1, i2, j1, j2) differences = differences"

definition get_differences ::
  "string list \<Rightarrow> string list \<Rightarrow> opcode list \<Rightarrow> difference list" where
  "get_differences lines1 lines2 opcodes = fold (differences_step lines1 lines2) opcodes []"

subsection \<open>\<open>_calculate_statistics\<close> and \<open>_estimate_pages_changed\<close>\<close>

record statistics =
  total_differences :: nat
  added_sections :: nat
  deleted_sections :: nat
  modified_sections :: nat
  total_added_lines :: nat
  total_deleted_lines :: nat
  pages_changed :: int

text \<open>\<open>int(x)\<close> of a float: truncation towards zero.\<close>

definition py_int :: "real \<Rightarrow> int" where
  "py_int x = (if 0 \<le> x then \<lfloor>x\<rfloor> else \<lceil>x\<rceil>)"

text \<open>
  The estimate divides floats three times and truncates the last quotient, so the
  rounding of a division can change the result. The rounding of a real number to a
  double is the parameter \<open>rnd\<close>; each \<open>/\<close> of the source is the exact quotient
  rounded by it.
\<close>

definition estimate_pages_changed ::
  "(real \<Rightarrow> real) \<Rightarrow> difference list \<Rightarrow> extracted_document \<Rightarrow> extracted_document \<Rightarrow> int" where
  "estimate_pages_changed rnd differences doc1 doc2 =
     (if differences = [] then 0
      else
        let total_changes =
              sum_list (map (\<lambda>d. length (get_lines d) + length (get_old_lines d)
                                 + length (get_new_lines d)) differences);
            avg_lines_per_page =
              rnd (rnd (real (total_lines doc1 + total_lines doc2) / 2)
                   / real (max (max (total_pages doc1) (total_pages doc2)) 1));
            estimated_pages =
              py_int (rnd (real total_changes / max avg_lines_per_page 1)) + 1
        in min estimated_pages (int (max (total_pages doc1) (total_pages doc2))))"

definition calculate_statistics ::
  "(real \<Rightarrow> real) \<Rightarrow> extracted_document \<Rightarrow> extracted_document \<Rightarrow> difference list
   \<Rightarrow> statistics" where
  "calculate_statistics rnd doc1 doc2 differences =
     (let added_count = sum_list (map (\<lambda>d. 1) (filter is_added differences));
          deleted_count = sum_list (map (\<lambda>d. 1) (filter is_deleted differences));
          modified_count = sum_list (map (\<lambda>d. 1) (filter is_modified differences));
          added_lines =
            sum_list (map (\<lambda>d. length (get_lines d)) (filter is_added differences));
          deleted_lines =
            sum_list (map (\<lambda>d. length (get_lines d)) (filter is_deleted differences))
      in \<lparr>total_differences = length differences,
          added_sections = added_count,
          deleted_sections = deleted_count,
          modified_sections = modified_count,
          total_added_lines = added_lines,
          total_deleted_lines = deleted_lines,
          pages_changed = estimate_pages_changed rnd differences doc1 doc2\<rparr>)"

subsection \<open>\<open>compare_documents\<close>\<close>

record document_summary =
  doc_path :: string
  doc_total_pages :: nat
  doc_total_lines :: nat
  doc_total_chars :: nat

record comparison_result =
  document1 :: document_summary
  document2 :: document_summary
  differences :: "difference list"
  statistics :: statistics
  similarity_ratio :: real

text \<open>
  The two extractions run one after the other with no \<open>try\<close> around them: an
  exception of the first leaves the function before the second document is opened.
\<close>

definition compare_documents ::
  "(real \<Rightarrow> real) \<Rightarrow> world \<Rightarrow> string \<Rightarrow> string \<Rightarrow> (string + comparison_result) \<times> world" where
  "compare_documents rnd w pdf1_path pdf2_path =
     (case extract_text w pdf1_path of
        (Inl e, w1) \<Rightarrow> (Inl e, w1)
      | (Inr doc1, w1) \<Rightarrow>
          (case extract_text w1 pdf2_path of
             (Inl e, w2) \<Rightarrow> (Inl e, w2)
           | (Inr doc2, w2) \<Rightarrow>
               let lines1 = split_on CHR ''\<newline>'' (full_text doc1);
                   lines2 = split_on CHR ''\<newline>'' (full_text doc2);
                   diffs = get_differences lines1 lines2 (get_opcodes lines1 lines2);
                   stats = calculate_statistics rnd doc1 doc2 diffs
               in (Inr \<lparr>document1 =
                           \<lparr>doc_path = pdf1_path,
                            doc_total_pages = total_pages doc1,
                            doc_total_lines = total_lines doc1,
                            doc_total_chars = total_chars doc1\<rparr>,
                         document2 =
                           \<lparr>doc_path = pdf2_path,
                            doc_total_pages = total_pages doc2,
                            doc_total_lines = total_lines doc2,
                            doc_total_chars = total_chars doc2\<rparr>,
                         differences = diffs,
                         statistics = stats,
                         similarity_ratio = ratio lines1 lines2\<rparr>, w2)))"

section \<open>Properties\<close>

lemma is_space_newline: "is_space CHR ''\<newline>''"
  by (simp add: is_space_def)

lemma sub_ws_no_newline: "CHR ''\<newline>'' \<notin> set (sub_ws s)"
  by (induction s rule: sub_ws.induct) (auto simp: is_space_newline)

lemma split_on_no_sep: "c \<notin> set s \<Longrightarrow> split_on c s = [s]"
  by (induction s) auto

lemma clean_text_one_line: "clean_text t = strip (sub_ws t)"
proof (cases "t = []")
  case True
  then show ?thesis by (simp add: clean_text_def strip_def)
next
  case False
  have "split_on CHR ''\<newline>'' (sub_ws t) = [sub_ws t]"
    by (rule split_on_no_sep) (rule sub_ws_no_newline)
  then show ?thesis using False
    by (simp add: clean_text_def Let_def)
qed

lemma strip_subset: "set (strip s) \<subseteq> set s"
proof -
  have "set (strip s) \<subseteq> set (dropWhile is_space s)"
    unfolding strip_def using set_dropWhileD by fastforce
  also have "\<dots> \<subseteq> set s" using set_dropWhileD by fastforce
  finally show ?thesis .
qed

text \<open>
  C1 (what the code does with the scenario input). On the input of scenario 5 (two
  spaces, \<open>Art\<close>, three spaces, \<open>1\<close>, two spaces, three newlines, a space, \<open>Art 2\<close>
  and a space) \<open>_clean_text\<close> returns the single line \<open>Art 1 Art 2\<close>, not the two
  lines separated by a blank line that the scenario expects. The substitution of
  \<open>\s+\<close> has replaced every newline by a space before the text is split into lines,
  so for every input the result is the stripped text after the substitution and holds
  no newline: the division into lines is lost.
\<close>

theorem clean_text_scenario5:
  "clean_text ''  Art   1  \<newline>\<newline>\<newline> Art 2 '' = ''Art 1 Art 2''
   \<and> clean_text ''  Art   1  \<newline>\<newline>\<newline> Art 2 '' \<noteq> ''Art 1\<newline>\<newline>Art 2''
   \<and> clean_text t = strip (sub_ws t)
   \<and> CHR ''\<newline>'' \<notin> set (clean_text t)"
proof -
  have "CHR ''\<newline>'' \<notin> set (clean_text t)"
    using strip_subset[of "sub_ws t"] sub_ws_no_newline[of t]
    by (auto simp: clean_text_one_line)
  moreover have "clean_text ''  Art   1  \<newline>\<newline>\<newline> Art 2 '' = ''Art 1 Art 2''"
    by (simp add: clean_text_def strip_def is_space_def)
  ultimately show ?thesis by (simp add: clean_text_one_line)
qed

lemma split_on_not_Nil: "split_on sep s \<noteq> []"
  by (induction s) (auto split: list.splits)

lemma fold_differences_step:
  "fold (differences_step lines1 lines2) ops acc =
     acc @ concat (map (\<lambda>op. differences_step lines1 lines2 op []) ops)"
proof (induction ops arbitrary: acc)
  case Nil
  then show ?case by simp
next
  case (Cons op ops)
  obtain t i1 i2 j1 j2 where op: "op = (t, i1, i2, j1, j2)" by (cases op) auto
  have "differences_step lines1 lines2 op acc = acc @ differences_step lines1 lines2 op []"
    unfolding op by (cases t) simp_all
  then show ?case using Cons.IH by simp
qed

lemma length_step:
  "length (differences_step lines1 lines2 op []) = (if fst op \<noteq> Equal then 1 else 0)"
proof -
  obtain t i1 i2 j1 j2 where op: "op = (t, i1, i2, j1, j2)" by (cases op) auto
  show ?thesis unfolding op by (cases t) simp_all
qed

lemma length_concat_filter:
  "length (concat (map f xs)) = length (filter P xs)"
  if "\<And>x. length (f x) = (if P x then 1 else 0)"
  using that by (induction xs) auto

text \<open>
  C5 (classification). For every pair of line lists and every opcode list,
  \<open>_get_differences\<close> returns, in opcode order, one record for each opcode that is not
  \<open>equal\<close> and none for an \<open>equal\<close> opcode: a \<open>replace\<close> gives a modified record at
  position \<open>i1\<close> with old lines \<open>lines1[i1:i2]\<close> and new lines \<open>lines2[j1:j2]\<close>, a
  \<open>delete\<close> gives a deleted record at position \<open>i1\<close> with lines \<open>lines1[i1:i2]\<close>, an
  \<open>insert\<close> gives an added record at position \<open>j1\<close> with lines \<open>lines2[j1:j2]\<close>. The
  number of records is the number of opcodes that are not \<open>equal\<close>.
\<close>

theorem classification:
  "get_differences lines1 lines2 opcodes =
     concat (map (\<lambda>(t, i1, i2, j1, j2).
        case t of
          Replace \<Rightarrow> [Modified i1 (slice lines1 i1 i2) (slice lines2 j1 j2)
                        (get_context lines1 lines2 i1 j1 3)]
        | Delete \<Rightarrow> [Deleted i1 (slice lines1 i1 i2) (get_context lines1 lines2 i1 i1 3)]
        | Insert \<Rightarrow> [Added j1 (slice lines2 j1 j2) (get_context lines1 lines2 i1 j1 3)]
        | Equal \<Rightarrow> []) opcodes)
   \<and> length (get_differences lines1 lines2 opcodes)
       = length (filter (\<lambda>(t, i1, i2, j1, j2). t \<noteq> Equal) opcodes)"
proof -
  have eq: "(\<lambda>op. differences_step lines1 lines2 op []) =
     (\<lambda>(t, i1, i2, j1, j2).
        case t of
          Replace \<Rightarrow> [Modified i1 (slice lines1 i1 i2) (slice lines2 j1 j2)
                        (get_context lines1 lines2 i1 j1 3)]
        | Delete \<Rightarrow> [Deleted i1 (slice lines1 i1 i2) (get_context lines1 lines2 i1 i1 3)]
        | Insert \<Rightarrow> [Added j1 (slice lines2 j1 j2) (get_context lines1 lines2 i1 j1 3)]
        | Equal \<Rightarrow> [])"
    by (auto simp: fun_eq_iff split: tag.splits)
  have f: "(\<lambda>(t, i1, i2, j1, j2). t \<noteq> Equal) = (\<lambda>op::opcode. fst op \<noteq> Equal)"
    by (auto simp: fun_eq_iff)
  have "get_differences lines1 lines2 opcodes =
      concat (map (\<lambda>op. differences_step lines1 lines2 op []) opcodes)"
    by (simp add: get_differences_def fold_differences_step)
  moreover have "length (concat (map (\<lambda>op. differences_step lines1 lines2 op []) opcodes))
      = length (filter (\<lambda>op. fst op \<noteq> Equal) opcodes)"
    by (rule length_concat_filter) (rule length_step)
  ultimately show ?thesis unfolding eq f by simp
qed

lemma length_slice: "length (slice xs i j) = min j (length xs) - i"
  by (auto simp: slice_def)

lemma slice_nth: "slice xs i j = map ((!) xs) [i..<min j (length xs)]"
proof (rule nth_equalityI)
  show "length (slice xs i j) = length (map ((!) xs) [i..<min j (length xs)])"
    by (simp add: length_slice)
next
  fix k assume "k < length (slice xs i j)"
  then have k: "k < min j (length xs) - i" by (simp add: length_slice)
  then have "slice xs i j ! k = xs ! (i + k)" by (simp add: slice_def)
  moreover have "i + k < min j (length xs)" using k by arith
  then have "map ((!) xs) [i..<min j (length xs)] ! k = xs ! (i + k)"
    using k by (simp del: upt_Suc)
  ultimately show "slice xs i j ! k = map ((!) xs) [i..<min j (length xs)] ! k" by simp
qed

lemma contexts_of_differences:
  "map context_of (get_differences lines1 lines2 opcodes)
   = map (\<lambda>(t, i1, i2, j1, j2).
            get_context lines1 lines2 i1 (if t = Delete then i1 else j1) 3)
       (filter (\<lambda>(t, i1, i2, j1, j2). t \<noteq> Equal) opcodes)"
proof -
  have "map context_of (concat (map (\<lambda>op. differences_step lines1 lines2 op []) opcodes))
   = map (\<lambda>(t, i1, i2, j1, j2).
            get_context lines1 lines2 i1 (if t = Delete then i1 else j1) 3)
       (filter (\<lambda>(t, i1, i2, j1, j2). t \<noteq> Equal) opcodes)"
  proof (induction opcodes)
    case Nil
    then show ?case by simp
  next
    case (Cons op ops)
    obtain t i1 i2 j1 j2 where op: "op = (t, i1, i2, j1, j2)" by (cases op) auto
    show ?case using Cons.IH unfolding op by (cases t) simp_all
  qed
  then show ?thesis by (simp add: get_differences_def fold_differences_step)
qed

text \<open>
  C6 (context windows). With the default radius 3, \<open>_get_context\<close> returns the four
  windows \<open>lines1[max(0,pos1-3):pos1]\<close>, \<open>lines1[pos1:pos1+3]\<close> and the same two over
  \<open>lines2\<close> at \<open>pos2\<close>; each window reads only positions below the length of its
  document and has at most 3 lines; at position 0 the window before is empty. For every
  opcode list, the contexts of the difference records are, in order, the contexts of the
  opcodes that are not \<open>equal\<close>: at \<open>(i1, j1)\<close> for a \<open>replace\<close> and an \<open>insert\<close>
  opcode, at \<open>(i1, i1)\<close> for a \<open>delete\<close> opcode.
\<close>

theorem context_windows:
  "get_context lines1 lines2 pos1 pos2 3 =
     \<lparr>before_doc1 = map ((!) lines1) [pos1 - 3..<min pos1 (length lines1)],
      after_doc1 = map ((!) lines1) [pos1..<min (pos1 + 3) (length lines1)],
      before_doc2 = map ((!) lines2) [pos2 - 3..<min pos2 (length lines2)],
      after_doc2 = map ((!) lines2) [pos2..<min (pos2 + 3) (length lines2)]\<rparr>
   \<and> before_doc1 (get_context lines1 lines2 pos1 pos2 3)
       = slice lines1 (nat (max 0 (int pos1 - 3))) pos1
   \<and> after_doc1 (get_context lines1 lines2 pos1 pos2 3) = slice lines1 pos1 (pos1 + 3)
   \<and> before_doc2 (get_context lines1 lines2 pos1 pos2 3)
       = slice lines2 (nat (max 0 (int pos2 - 3))) pos2
   \<and> after_doc2 (get_context lines1 lines2 pos1 pos2 3) = slice lines2 pos2 (pos2 + 3)
   \<and> length (before_doc1 (get_context lines1 lines2 pos1 pos2 3)) \<le> 3
   \<and> length (after_doc1 (get_context lines1 lines2 pos1 pos2 3)) \<le> 3
   \<and> length (before_doc2 (get_context lines1 lines2 pos1 pos2 3)) \<le> 3
   \<and> length (after_doc2 (get_context lines1 lines2 pos1 pos2 3)) \<le> 3
   \<and> before_doc1 (get_context lines1 lines2 0 pos2 3) = []
   \<and> before_doc2 (get_context lines1 lines2 pos1 0 3) = []
   \<and> map context_of (get_differences lines1 lines2 [(Replace, i1, i2, j1, j2)])
       = [get_context lines1 lines2 i1 j1 3]
   \<and> map context_of (get_differences lines1 lines2 [(Insert, i1, i2, j1, j2)])
       = [get_context lines1 lines2 i1 j1 3]
   \<and> map context_of (get_differences lines1 lines2 [(Delete, i1, i2, j1, j2)])
       = [get_context lines1 lines2 i1 i1 3]
   \<and> map context_of (get_differences lines1 lines2 opcodes)
       = map (\<lambda>(t, i1, i2, j1, j2).
                get_context lines1 lines2 i1 (if t = Delete then i1 else j1) 3)
           (filter (\<lambda>(t, i1, i2, j1, j2). t \<noteq> Equal) opcodes)"
proof -
  have n: "nat (max 0 (int p - 3)) = p - 3" for p :: nat by auto
  have m: "min (min (length xs) (p + 3)) (length xs) = min (p + 3) (length xs)"
    for xs :: "string list" and p by auto
  have w: "get_context lines1 lines2 pos1 pos2 3 =
     \<lparr>before_doc1 = map ((!) lines1) [pos1 - 3..<min pos1 (length lines1)],
      after_doc1 = map ((!) lines1) [pos1..<min (pos1 + 3) (length lines1)],
      before_doc2 = map ((!) lines2) [pos2 - 3..<min pos2 (length lines2)],
      after_doc2 = map ((!) lines2) [pos2..<min (pos2 + 3) (length lines2)]\<rparr>"
    by (simp add: get_context_def slice_nth n m)
  have a1: "after_doc1 (get_context lines1 lines2 pos1 pos2 3) = slice lines1 pos1 (pos1 + 3)"
    by (simp add: get_context_def slice_nth m)
  have a2: "after_doc2 (get_context lines1 lines2 pos1 pos2 3) = slice lines2 pos2 (pos2 + 3)"
    by (simp add: get_context_def slice_nth m)
  have b1: "before_doc1 (get_context lines1 lines2 pos1 pos2 3)
       = slice lines1 (nat (max 0 (int pos1 - 3))) pos1"
    and b2: "before_doc2 (get_context lines1 lines2 pos1 pos2 3)
       = slice lines2 (nat (max 0 (int pos2 - 3))) pos2"
    by (simp_all add: get_context_def)
  have l: "length (before_doc1 (get_context lines1 lines2 pos1 pos2 3)) \<le> 3"
    "length (after_doc1 (get_context lines1 lines2 pos1 pos2 3)) \<le> 3"
    "length (before_doc2 (get_context lines1 lines2 pos1 pos2 3)) \<le> 3"
    "length (after_doc2 (get_context lines1 lines2 pos1 pos2 3)) \<le> 3"
    unfolding w by auto
  have z: "before_doc1 (get_context lines1 lines2 0 pos2 3) = []"
    "before_doc2 (get_context lines1 lines2 pos1 0 3) = []"
    by (simp_all add: get_context_def slice_def)
  have c: "map context_of (get_differences lines1 lines2 [(Replace, i1, i2, j1, j2)])
       = [get_context lines1 lines2 i1 j1 3]"
    "map context_of (get_differences lines1 lines2 [(Insert, i1, i2, j1, j2)])
       = [get_context lines1 lines2 i1 j1 3]"
    "map context_of (get_differences lines1 lines2 [(Delete, i1, i2, j1, j2)])
       = [get_context lines1 lines2 i1 i1 3]"
    by (simp_all add: get_differences_def)
  have g: "map context_of (get_differences lines1 lines2 opcodes)
       = map (\<lambda>(t, i1, i2, j1, j2).
                get_context lines1 lines2 i1 (if t = Delete then i1 else j1) 3)
           (filter (\<lambda>(t, i1, i2, j1, j2). t \<noteq> Equal) opcodes)"
    by (rule contexts_of_differences)
  show ?thesis
    using w a1 a2 b1 b2 l z c g by blast
qed

lemma sum_list_ones: "sum_list (map (\<lambda>d. Suc 0) xs) = length xs"
  by (induction xs) auto

lemma changed_lines_split:
  "(\<Sum>d\<leftarrow>ds. length (get_lines d) + length (get_old_lines d) + length (get_new_lines d))
   = (\<Sum>d\<leftarrow>filter is_added ds. length (get_lines d))
     + (\<Sum>d\<leftarrow>filter is_deleted ds. length (get_lines d))
     + (\<Sum>d\<leftarrow>filter is_modified ds. length (get_old_lines d) + length (get_new_lines d))"
proof (induction ds)
  case Nil
  then show ?case by simp
next
  case (Cons d ds)
  then show ?case by (cases d) simp_all
qed

text \<open>
  C7 (pages-changed estimate). The estimate is 0 for an empty difference list; otherwise
  it is \<open>min(int(C / max(avg, 1)) + 1, max(pages1, pages2))\<close>, where \<open>C\<close> adds the
  lengths of \<open>lines\<close>, \<open>old_lines\<close> and \<open>new_lines\<close> of every record (the lines of added
  and deleted records and both the old and the new lines of modified records),
  \<open>avg = (lines1 + lines2) / 2 / max(pages1, pages2, 1)\<close>, and \<open>int\<close> truncates
  towards zero. This holds for every rounding of the divisions. The statistics carry
  this estimate as \<open>pages_changed\<close>.
\<close>

theorem pages_changed_estimate:
  "estimate_pages_changed rnd ds doc1 doc2 =
     (if ds = [] then 0
      else min (py_int (rnd (real (\<Sum>d\<leftarrow>ds. length (get_lines d)
                                     + length (get_old_lines d) + length (get_new_lines d))
                             / max (rnd (rnd (real (total_lines doc1 + total_lines doc2) / 2)
                                         / real (max (max (total_pages doc1) (total_pages doc2)) 1)))
                                   1)) + 1)
               (int (max (total_pages doc1) (total_pages doc2))))
   \<and> (\<Sum>d\<leftarrow>ds. length (get_lines d) + length (get_old_lines d)
          + length (get_new_lines d))
     = (\<Sum>d\<leftarrow>filter is_added ds. length (get_lines d))
       + (\<Sum>d\<leftarrow>filter is_deleted ds. length (get_lines d))
       + (\<Sum>d\<leftarrow>filter is_modified ds.
            length (get_old_lines d) + length (get_new_lines d))
   \<and> pages_changed (calculate_statistics rnd doc1 doc2 ds)
     = estimate_pages_changed rnd ds doc1 doc2
   \<and> py_int (- 5 / 2) = - 2 \<and> py_int (5 / 2) = 2"
proof -
  have "py_int (- 5 / 2) = - 2" "py_int (5 / 2) = 2"
    by (simp_all add: py_int_def)
  then show ?thesis
    using changed_lines_split[of ds]
    by (simp add: estimate_pages_changed_def calculate_statistics_def Let_def)
qed

text \<open>
  C8 (statistics tallies). \<open>added_sections\<close>, \<open>deleted_sections\<close> and
  \<open>modified_sections\<close> are the numbers of records of each kind; \<open>total_added_lines\<close>
  adds the lengths of \<open>lines\<close> over the added records only and \<open>total_deleted_lines\<close>
  over the deleted records only, so removing the modified records from the list changes
  neither total.
\<close>

theorem statistics_tallies:
  "added_sections (calculate_statistics rnd doc1 doc2 ds)
     = length (filter is_added ds)
   \<and> deleted_sections (calculate_statistics rnd doc1 doc2 ds)
     = length (filter is_deleted ds)
   \<and> modified_sections (calculate_statistics rnd doc1 doc2 ds)
     = length (filter is_modified ds)
   \<and> total_added_lines (calculate_statistics rnd doc1 doc2 ds)
     = (\<Sum>d\<leftarrow>filter is_added ds. length (get_lines d))
   \<and> total_deleted_lines (calculate_statistics rnd doc1 doc2 ds)
     = (\<Sum>d\<leftarrow>filter is_deleted ds. length (get_lines d))
   \<and> total_added_lines (calculate_statistics rnd doc1 doc2 ds)
     = total_added_lines (calculate_statistics rnd doc1 doc2
         (filter (\<lambda>d. \<not> is_modified d) ds))
   \<and> total_deleted_lines (calculate_statistics rnd doc1 doc2 ds)
     = total_deleted_lines (calculate_statistics rnd doc1 doc2
         (filter (\<lambda>d. \<not> is_modified d) ds))"
proof -
  have a: "filter (\<lambda>x. \<not> is_modified x \<and> is_added x) ds = filter is_added ds"
    by (rule filter_cong) (auto elim: is_added.elims)
  have d: "filter (\<lambda>x. \<not> is_modified x \<and> is_deleted x) ds = filter is_deleted ds"
    by (rule filter_cong) (auto elim: is_deleted.elims)
  show ?thesis
    by (simp add: calculate_statistics_def Let_def sum_list_ones a d)
qed

lemma snd_extract_text: "snd (extract_text w p) = w\<lparr>opened := opened w @ [p]\<rparr>"
  by (simp add: extract_text_def Let_def split: sum.splits prod.splits)

lemma fst_extract_text_opened:
  "fst (extract_text (w\<lparr>opened := l\<rparr>) p) = fst (extract_text w p)"
  by (simp add: extract_text_def Let_def split: sum.splits prod.splits)

lemma extract_text_eq:
  "extract_text w p = (fst (extract_text w p), w\<lparr>opened := opened w @ [p]\<rparr>)"
  using snd_extract_text[of w p] by (metis prod.collapse)

lemma compare_documents_cases:
  "compare_documents rnd w p1 p2 =
     (case fst (extract_text w p1) of
        Inl e \<Rightarrow> (Inl e, w\<lparr>opened := opened w @ [p1]\<rparr>)
      | Inr doc1 \<Rightarrow>
          (case fst (extract_text w p2) of
             Inl e \<Rightarrow> (Inl e, w\<lparr>opened := opened w @ [p1, p2]\<rparr>)
           | Inr doc2 \<Rightarrow>
               (Inr \<lparr>document1 =
                       \<lparr>doc_path = p1, doc_total_pages = total_pages doc1,
                        doc_total_lines = total_lines doc1,
                        doc_total_chars = total_chars doc1\<rparr>,
                     document2 =
                       \<lparr>doc_path = p2, doc_total_pages = total_pages doc2,
                        doc_total_lines = total_lines doc2,
                        doc_total_chars = total_chars doc2\<rparr>,
                     differences =
                       get_differences (split_on CHR ''\<newline>'' (full_text doc1))
                         (split_on CHR ''\<newline>'' (full_text doc2))
                         (get_opcodes (split_on CHR ''\<newline>'' (full_text doc1))
                            (split_on CHR ''\<newline>'' (full_text doc2))),
                     statistics =
                       calculate_statistics rnd doc1 doc2
                         (get_differences (split_on CHR ''\<newline>'' (full_text doc1))
                            (split_on CHR ''\<newline>'' (full_text doc2))
                            (get_opcodes (split_on CHR ''\<newline>'' (full_text doc1))
                               (split_on CHR ''\<newline>'' (full_text doc2)))),
                     similarity_ratio =
                       ratio (split_on CHR ''\<newline>'' (full_text doc1))
                         (split_on CHR ''\<newline>'' (full_text doc2))\<rparr>,
                w\<lparr>opened := opened w @ [p1, p2]\<rparr>)))"
proof -
  have e1: "extract_text w p1 = (fst (extract_text w p1), w\<lparr>opened := opened w @ [p1]\<rparr>)"
    by (rule extract_text_eq)
  have e2: "extract_text (w\<lparr>opened := opened w @ [p1]\<rparr>) p2
        = (fst (extract_text w p2), w\<lparr>opened := opened w @ [p1, p2]\<rparr>)"
    using extract_text_eq[of "w\<lparr>opened := opened w @ [p1]\<rparr>" p2]
    by (simp add: fst_extract_text_opened)
  show ?thesis
    unfolding compare_documents_def
    by (subst e1) (simp add: e2 Let_def split: sum.splits)
qed

text \<open>
  C9 (error atomicity). \<open>compare_documents\<close> returns a result if and only if both
  extractions succeed. When the first extraction fails, the call fails with that same
  error and only the first path has been opened, once; when the second fails, the call
  fails with that same error after each path has been opened once. The error of a failed
  extraction is the message of the exception raised by the PDF library behind the prefix
  \<open>Error al procesar PDF: \<close>.
\<close>

theorem error_atomicity:
  "(\<not> isl (fst (compare_documents rnd w p1 p2)))
     = (\<not> isl (fst (extract_text w p1)) \<and> \<not> isl (fst (extract_text w p2)))
   \<and> (case fst (extract_text w p1) of
         Inl e \<Rightarrow> compare_documents rnd w p1 p2 = (Inl e, w\<lparr>opened := opened w @ [p1]\<rparr>)
       | Inr doc1 \<Rightarrow>
           (case fst (extract_text w p2) of
              Inl e \<Rightarrow>
                compare_documents rnd w p1 p2 = (Inl e, w\<lparr>opened := opened w @ [p1, p2]\<rparr>)
            | Inr doc2 \<Rightarrow>
                snd (compare_documents rnd w p1 p2) = w\<lparr>opened := opened w @ [p1, p2]\<rparr>))
   \<and> fst (extract_text w p1)
       = (case files w p1 of
            Inl cause \<Rightarrow> Inl (''Error al procesar PDF: '' @ cause)
          | Inr pdf_pages \<Rightarrow>
              (case extract_pages 1 pdf_pages [] [] of
                 Inl cause \<Rightarrow> Inl (''Error al procesar PDF: '' @ cause)
               | Inr r \<Rightarrow> fst (extract_text w p1)))"
proof -
  have 1: "(\<not> isl (fst (compare_documents rnd w p1 p2)))
     = (\<not> isl (fst (extract_text w p1)) \<and> \<not> isl (fst (extract_text w p2)))"
    by (simp add: compare_documents_cases split: sum.splits)
  have 2: "(case fst (extract_text w p1) of
         Inl e \<Rightarrow> compare_documents rnd w p1 p2 = (Inl e, w\<lparr>opened := opened w @ [p1]\<rparr>)
       | Inr doc1 \<Rightarrow>
           (case fst (extract_text w p2) of
              Inl e \<Rightarrow>
                compare_documents rnd w p1 p2 = (Inl e, w\<lparr>opened := opened w @ [p1, p2]\<rparr>)
            | Inr doc2 \<Rightarrow>
                snd (compare_documents rnd w p1 p2) = w\<lparr>opened := opened w @ [p1, p2]\<rparr>))"
    by (simp add: compare_documents_cases split: sum.splits)
  have 3: "fst (extract_text w p1)
       = (case files w p1 of
            Inl cause \<Rightarrow> Inl (''Error al procesar PDF: '' @ cause)
          | Inr pdf_pages \<Rightarrow>
              (case extract_pages 1 pdf_pages [] [] of
                 Inl cause \<Rightarrow> Inl (''Error al procesar PDF: '' @ cause)
               | Inr r \<Rightarrow> fst (extract_text w p1)))"
    by (simp add: extract_text_def wrap_error_def Let_def split: sum.splits prod.splits)
  from 1 2 3 show ?thesis by blast
qed

definition no_text :: "raw_page \<Rightarrow> bool" where
  "no_text q = (q = Inr None \<or> q = Inr (Some []))"

lemma extract_pages_no_text:
  "list_all no_text ps \<Longrightarrow>
   extract_pages n ps text_content pages_data = Inr (text_content, pages_data)"
  by (induction ps arbitrary: n) (auto simp: no_text_def)

text \<open>
  C10 (invariant of the extracted document). In the document of every successful
  extraction, \<open>total_lines\<close> is the number of segments of \<open>full_text\<close> split at
  newlines and \<open>total_chars\<close> is the length of \<open>full_text\<close>; so \<open>total_lines\<close> is at
  least 1. \<open>total_pages\<close> counts every page of the PDF. When no page yields text
  (each page gives \<open>None\<close> or the empty string), \<open>full_text\<close> is empty, \<open>total_lines\<close>
  is 1, \<open>total_chars\<close> is 0 and the list of pages is empty.
\<close>

theorem extracted_document_invariant:
  assumes "fst (extract_text w p) = Inr d"
  shows "total_lines d = length (split_on CHR ''\<newline>'' (full_text d))
       \<and> total_chars d = length (full_text d)
       \<and> 1 \<le> total_lines d
       \<and> (\<forall>ps. files w p = Inr ps \<longrightarrow>
            total_pages d = length ps
            \<and> (list_all no_text ps \<longrightarrow>
                 full_text d = [] \<and> total_lines d = 1 \<and> total_chars d = 0 \<and> pages d = []))"
proof -
  from assms obtain ps tc pd where
    f: "files w p = Inr ps" and e: "extract_pages 1 ps [] [] = Inr (tc, pd)"
    and d: "d = \<lparr>full_text = join_on CHR ''\<newline>'' tc, pages = pd,
                 total_pages = length ps,
                 total_lines = length (split_on CHR ''\<newline>'' (join_on CHR ''\<newline>'' tc)),
                 total_chars = length (join_on CHR ''\<newline>'' tc)\<rparr>"
    by (auto simp: extract_text_def Let_def split: sum.splits prod.splits)
  have 1: "total_lines d = length (split_on CHR ''\<newline>'' (full_text d))"
    and 2: "total_chars d = length (full_text d)"
    by (simp_all add: d)
  have 3: "1 \<le> total_lines d"
    using split_on_not_Nil[of "CHR ''\<newline>''" "full_text d"] 1
    by (cases "split_on CHR ''\<newline>'' (full_text d)") auto
  have 4: "total_pages d = length ps" by (simp add: d)
  have 5: "full_text d = [] \<and> total_lines d = 1 \<and> total_chars d = 0 \<and> pages d = []"
    if "list_all no_text ps"
  proof -
    from extract_pages_no_text[OF that, of 1 "[]" "[]"] e have "tc = []" "pd = []" by auto
    then show ?thesis by (simp add: d)
  qed
  from 1 2 3 4 5 f show ?thesis by auto
qed

text \<open>A PDF of two pages, one without a text layer and one with an empty text.\<close>

definition empty_world :: world where
  "empty_world = \<lparr>files = (\<lambda>_. Inr [Inr None, Inr (Some [])]), opened = []\<rparr>"

theorem extracted_document_invariant_witness:
  "fst (extract_text empty_world ''a.pdf'')
     = Inr \<lparr>full_text = [], pages = [], total_pages = 2, total_lines = 1, total_chars = 0\<rparr>
   \<and> files empty_world ''a.pdf'' = Inr [Inr None, Inr (Some [])]
   \<and> list_all no_text [Inr None, Inr (Some [])]
   \<and> total_lines \<lparr>full_text = [], pages = [], total_pages = 2, total_lines = 1,
        total_chars = 0\<rparr> = length (split_on CHR ''\<newline>'' [])"
proof -
  have h: "fst (extract_text empty_world ''a.pdf'')
     = Inr \<lparr>full_text = [], pages = [], total_pages = 2, total_lines = 1, total_chars = 0\<rparr>"
    by (simp add: extract_text_def empty_world_def)
  from extracted_document_invariant[OF h] h show ?thesis
    by (simp add: empty_world_def no_text_def)
qed

section \<open>Properties of the alignment\<close>

subsection \<open>Matching blocks\<close>

text \<open>
  The work list and the blocks found so far are kept apart by the loop of
  \<open>get_matching_blocks\<close>: \<open>reg\<close> is the pair of index ranges a block occupies,
  \<open>sep\<close> says that one window lies wholly before the other in both sequences, and
  \<open>blk_match\<close> that a block lies inside both sequences and joins equal elements.
\<close>

type_synonym window = "nat \<times> nat \<times> nat \<times> nat"

definition reg :: "best \<Rightarrow> window" where
  "reg blk = (case blk of (i, j, k) \<Rightarrow> (i, i + k, j, j + k))"

definition sep :: "window \<Rightarrow> window \<Rightarrow> bool" where
  "sep w1 w2 =
     (case w1 of (alo1, ahi1, blo1, bhi1) \<Rightarrow> case w2 of (alo2, ahi2, blo2, bhi2) \<Rightarrow>
        (ahi1 \<le> alo2 \<and> bhi1 \<le> blo2) \<or> (ahi2 \<le> alo1 \<and> bhi2 \<le> blo1))"

definition inside :: "window \<Rightarrow> window \<Rightarrow> bool" where
  "inside w1 w2 =
     (case w1 of (alo1, ahi1, blo1, bhi1) \<Rightarrow> case w2 of (alo2, ahi2, blo2, bhi2) \<Rightarrow>
        alo2 \<le> alo1 \<and> ahi1 \<le> ahi2 \<and> blo2 \<le> blo1 \<and> bhi1 \<le> bhi2)"

definition blk_match :: "'a list \<Rightarrow> 'a list \<Rightarrow> best \<Rightarrow> bool" where
  "blk_match a b blk =
     (case blk of (i, j, k) \<Rightarrow>
        i + k \<le> length a \<and> j + k \<le> length b \<and> (\<forall>t<k. a ! (i + t) = b ! (j + t)))"

lemma sep_sym: "sep x y \<Longrightarrow> sep y x"
  by (auto simp: sep_def split: prod.splits)

lemma sep_inside: "inside r w \<Longrightarrow> sep w x \<Longrightarrow> sep r x"
  by (auto simp: sep_def inside_def split: prod.splits)

lemma sorted_wrt_sep_refine:
  assumes "sorted_wrt sep (A @ w # Q)" "\<forall>r\<in>set rs. inside r w" "sorted_wrt sep rs"
  shows "sorted_wrt sep (A @ rs @ Q)"
proof -
  from assms(1) have A: "sorted_wrt sep A" and Q: "sorted_wrt sep Q"
    and Aw: "\<forall>x\<in>set A. sep x w" and AQ: "\<forall>x\<in>set A. \<forall>y\<in>set Q. sep x y"
    and wQ: "\<forall>y\<in>set Q. sep w y"
    by (auto simp: sorted_wrt_append)
  have 1: "\<forall>x\<in>set A. \<forall>r\<in>set rs. sep x r"
    using Aw assms(2) by (meson sep_inside sep_sym)
  have 2: "\<forall>r\<in>set rs. \<forall>y\<in>set Q. sep r y"
    using wQ assms(2) by (meson sep_inside)
  show ?thesis
    using A Q AQ 1 2 assms(3) by (auto simp: sorted_wrt_append)
qed

definition mb_inv ::
  "'a list \<Rightarrow> 'a list \<Rightarrow> window list \<Rightarrow> best list \<Rightarrow> bool" where
  "mb_inv a b queue acc =
     ((\<forall>w\<in>set queue. case w of (alo, ahi, blo, bhi) \<Rightarrow> ahi \<le> length a \<and> bhi \<le> length b)
      \<and> (\<forall>blk\<in>set acc. blk_match a b blk \<and> 0 < snd (snd blk))
      \<and> sorted_wrt sep (map reg acc @ queue))"

lemma mb_inv_step:
  assumes inv: "mb_inv a b ((alo, ahi, blo, bhi) # queue) acc"
    and m: "find_longest_match a b alo ahi blo bhi = (i, j, k)" and k: "k \<noteq> 0"
  shows "mb_inv a b
           ((if i + k < ahi \<and> j + k < bhi then [(i + k, ahi, j + k, bhi)] else [])
            @ (if alo < i \<and> blo < j then [(alo, i, blo, j)] else []) @ queue)
           (acc @ [(i, j, k)])"
proof -
  let ?w = "(alo, ahi, blo, bhi)"
  let ?news = "(if i + k < ahi \<and> j + k < bhi then [(i + k, ahi, j + k, bhi)] else [])
            @ (if alo < i \<and> blo < j then [(alo, i, blo, j)] else [])"
  from find_longest_match_ok[of a b alo ahi blo bhi] m k
  have b: "alo \<le> i" "blo \<le> j" "i + k \<le> ahi" "j + k \<le> bhi"
    and mt: "\<forall>t<k. a ! (i + t) = b ! (j + t)"
    by (simp_all add: best_ok_def)
  from inv have wb: "ahi \<le> length a" "bhi \<le> length b"
    and qb: "\<forall>w\<in>set queue. case w of (alo, ahi, blo, bhi) \<Rightarrow> ahi \<le> length a \<and> bhi \<le> length b"
    and ab: "\<forall>blk\<in>set acc. blk_match a b blk \<and> 0 < snd (snd blk)"
    and s: "sorted_wrt sep (map reg acc @ ?w # queue)"
    by (simp_all add: mb_inv_def)
  have 1: "\<forall>w\<in>set (?news @ queue).
             case w of (alo, ahi, blo, bhi) \<Rightarrow> ahi \<le> length a \<and> bhi \<le> length b"
    using qb wb b by auto
  have 2: "\<forall>blk\<in>set (acc @ [(i, j, k)]). blk_match a b blk \<and> 0 < snd (snd blk)"
    using ab b wb mt k by (auto simp: blk_match_def)
  have ins: "\<forall>r\<in>set (reg (i, j, k) # ?news). inside r ?w"
    using b by (auto simp: inside_def reg_def)
  have srt: "sorted_wrt sep (reg (i, j, k) # ?news)"
    using b by (auto simp: sep_def reg_def)
  from sorted_wrt_sep_refine[OF s ins srt]
  have 3: "sorted_wrt sep (map reg (acc @ [(i, j, k)]) @ ?news @ queue)"
    by simp
  show ?thesis
    unfolding mb_inv_def using 1 2 3 by simp
qed

lemma mb_loop_inv:
  "mb_inv a b queue acc \<Longrightarrow> mb_inv a b [] (mb_loop a b queue acc)"
proof (induction a b queue acc rule: mb_loop.induct)
  case (1 a b matching_blocks)
  then show ?case by (simp add: mb_loop.simps)
next
  case (2 a b alo ahi blo bhi queue matching_blocks)
  obtain i j k where m: "find_longest_match a b alo ahi blo bhi = (i, j, k)"
    by (cases "find_longest_match a b alo ahi blo bhi") auto
  show ?case
  proof (cases "k = 0")
    case True
    then have nk: "\<not> k \<noteq> 0" by simp
    from 2(3) have "mb_inv a b queue matching_blocks"
      by (auto simp: mb_inv_def sorted_wrt_append)
    from 2(2)[OF m[symmetric] refl nk this] m True show ?thesis by (simp add: mb_loop.simps)
  next
    case False
    from 2(1)[OF m[symmetric] refl False mb_inv_step[OF 2(3) m False]] m False
    show ?thesis by (simp add: mb_loop.simps)
  qed
qed

fun chain :: "nat \<Rightarrow> nat \<Rightarrow> best list \<Rightarrow> bool" where
  "chain i j [] = True"
| "chain i j ((ai, bj, sz) # blocks) = (i \<le> ai \<and> j \<le> bj \<and> chain (ai + sz) (bj + sz) blocks)"

fun bend :: "nat \<Rightarrow> nat \<Rightarrow> best list \<Rightarrow> nat \<times> nat" where
  "bend i j [] = (i, j)"
| "bend i j ((ai, bj, sz) # blocks) = bend (ai + sz) (bj + sz) blocks"

definition before :: "best \<Rightarrow> best \<Rightarrow> bool" where
  "before x y = (case x of (i, j, k) \<Rightarrow> case y of (i', j', k') \<Rightarrow> i + k \<le> i' \<and> j + k \<le> j')"

lemma sorted_wrt_irrefl_distinct:
  "sorted_wrt P xs \<Longrightarrow> \<forall>x\<in>set xs. \<not> P x x \<Longrightarrow> distinct xs"
  by (induction xs) auto

lemma sorted_wrt_sym_pairs:
  "sorted_wrt P xs \<Longrightarrow> (\<And>x y. P x y \<Longrightarrow> P y x) \<Longrightarrow>
   x \<in> set xs \<Longrightarrow> y \<in> set xs \<Longrightarrow> x \<noteq> y \<Longrightarrow> P x y"
  by (induction xs) auto

lemma less_sep_before:
  fixes x y :: best
  assumes "x < y" "sep (reg x) (reg y)" "0 < snd (snd y)"
  shows "before x y"
proof -
  obtain i j k where x: "x = (i, j, k)" by (cases x) auto
  obtain i' j' k' where y: "y = (i', j', k')" by (cases y) auto
  from assms(1) have "i \<le> i'" by (auto simp: x y less_prod_def)
  with assms(2,3) show ?thesis
    by (auto simp: x y sep_def reg_def before_def)
qed

lemma sorted_before_chain:
  "sorted_wrt before blocks \<Longrightarrow> chain 0 0 blocks"
proof -
  have "sorted_wrt before blocks \<Longrightarrow> (\<forall>y\<in>set blocks. before (i0, j0, k0) y)
        \<Longrightarrow> chain (i0 + k0) (j0 + k0) blocks" for i0 j0 k0
  proof (induction blocks arbitrary: i0 j0 k0)
    case Nil
    then show ?case by simp
  next
    case (Cons x blocks)
    obtain ai bj sz where x: "x = (ai, bj, sz)" by (cases x) auto
    from Cons.prems have "chain (ai + sz) (bj + sz) blocks"
      by (intro Cons.IH) (auto simp: x)
    with Cons.prems(2) show ?case by (simp add: x before_def)
  qed
  from this[of 0 0 0] show "sorted_wrt before blocks \<Longrightarrow> chain 0 0 blocks"
    by (simp add: before_def split: prod.splits)
qed

lemma sort_chain:
  fixes acc :: "best list"
  assumes "sorted_wrt sep (map reg acc)" "\<forall>blk\<in>set acc. 0 < snd (snd blk)"
  shows "chain 0 0 (sort acc)"
proof -
  have s: "sorted_wrt (\<lambda>x y. sep (reg x) (reg y)) acc"
    using assms(1) by (simp add: sorted_wrt_map)
  have irr: "\<forall>x\<in>set acc. \<not> sep (reg x) (reg x)"
    using assms(2) by (auto simp: sep_def reg_def split: prod.splits)
  have d: "distinct acc" by (rule sorted_wrt_irrefl_distinct[OF s irr])
  have p: "sep (reg x) (reg y)" if "x \<in> set acc" "y \<in> set acc" "x \<noteq> y" for x y
    by (rule sorted_wrt_sym_pairs[OF s _ that]) (rule sep_sym)
  have "sorted_wrt (<) (sort acc)"
    using d by (simp add: strict_sorted_iff)
  then have "sorted_wrt before (sort acc)"
  proof (rule sorted_wrt_mono_rel[rotated])
    fix x y assume "x \<in> set (sort acc)" "y \<in> set (sort acc)" "x < y"
    then show "before x y"
      using p[of x y] assms(2) by (intro less_sep_before) auto
  qed
  then show ?thesis by (rule sorted_before_chain)
qed

lemma chain_append:
  "chain i j (xs @ ys) = (chain i j xs \<and> chain (fst (bend i j xs)) (snd (bend i j xs)) ys)"
  by (induction xs arbitrary: i j) auto

lemma bend_append:
  "bend i j (xs @ ys) = bend (fst (bend i j xs)) (snd (bend i j xs)) ys"
  by (induction xs arbitrary: i j) auto

lemma chain_mono: "chain i j bs \<Longrightarrow> i' \<le> i \<Longrightarrow> j' \<le> j \<Longrightarrow> chain i' j' bs"
  by (cases bs) auto

lemma bend_ge: "chain i j bs \<Longrightarrow> i \<le> fst (bend i j bs) \<and> j \<le> snd (bend i j bs)"
proof (induction bs arbitrary: i j)
  case Nil
  then show ?case by simp
next
  case (Cons x bs)
  obtain ai bj sz where x: "x = (ai, bj, sz)" by (cases x) auto
  from Cons.prems have "chain (ai + sz) (bj + sz) bs" "i \<le> ai" "j \<le> bj" by (auto simp: x)
  with Cons.IH[of "ai + sz" "bj + sz"] show ?case by (simp add: x)
qed

lemma bend_le:
  "list_all (blk_match a b) bs \<Longrightarrow> i \<le> length a \<Longrightarrow> j \<le> length b \<Longrightarrow>
   fst (bend i j bs) \<le> length a \<and> snd (bend i j bs) \<le> length b"
proof (induction bs arbitrary: i j)
  case Nil
  then show ?case by simp
next
  case (Cons x bs)
  obtain ai bj sz where x: "x = (ai, bj, sz)" by (cases x) auto
  from Cons.prems(1) have h: "blk_match a b (ai, bj, sz)" "list_all (blk_match a b) bs"
    by (simp_all add: x)
  from h(1) have "ai + sz \<le> length a" "bj + sz \<le> length b"
    by (simp_all add: blk_match_def)
  with Cons.IH[OF h(2), of "ai + sz" "bj + sz"] show ?case by (simp add: x)
qed

lemma blk_match_merge:
  assumes "blk_match a b (i1, j1, k1)" "blk_match a b (i1 + k1, j1 + k1, k2)"
  shows "blk_match a b (i1, j1, k1 + k2)"
proof -
  have "a ! (i1 + t) = b ! (j1 + t)" if "t < k1 + k2" for t
  proof (cases "t < k1")
    case True
    then show ?thesis using assms(1) by (simp add: blk_match_def)
  next
    case False
    then have "t - k1 < k2" using that by simp
    with assms(2) have "a ! (i1 + k1 + (t - k1)) = b ! (j1 + k1 + (t - k1))"
      by (simp add: blk_match_def)
    then show ?thesis using False by simp
  qed
  then show ?thesis using assms by (simp add: blk_match_def add.assoc)
qed

lemma collapse_chain:
  "chain p q (na @ (i1, j1, k1) # bs) \<Longrightarrow> chain p q (collapse_adjacent bs (i1, j1, k1) na)"
proof (induction bs "(i1, j1, k1)" na arbitrary: i1 j1 k1 rule: collapse_adjacent.induct)
  case (1 i1 j1 k1 non_adjacent)
  then show ?case by (auto simp: chain_append)
next
  case (2 i2 j2 k2 blocks i1 j1 k1 non_adjacent)
  show ?case
  proof (cases "i1 + k1 = i2 \<and> j1 + k1 = j2")
    case True
    from 2(3) True have "chain p q (non_adjacent @ (i1, j1, k1 + k2) # blocks)"
      by (auto simp: chain_append add.assoc)
    from 2(1)[OF True this] True show ?thesis by simp
  next
    case False
    have "chain p q ((if k1 \<noteq> 0 then non_adjacent @ [(i1, j1, k1)] else non_adjacent)
            @ (i2, j2, k2) # blocks)"
      using 2(3) by (auto simp: chain_append bend_append)
    from 2(2)[OF False this] False show ?thesis by auto
  qed
qed

lemma collapse_match:
  "list_all (blk_match a b) (na @ (i1, j1, k1) # bs) \<Longrightarrow>
   list_all (blk_match a b) (collapse_adjacent bs (i1, j1, k1) na)"
proof (induction bs "(i1, j1, k1)" na arbitrary: i1 j1 k1 rule: collapse_adjacent.induct)
  case (1 i1 j1 k1 non_adjacent)
  then show ?case by auto
next
  case (2 i2 j2 k2 blocks i1 j1 k1 non_adjacent)
  show ?case
  proof (cases "i1 + k1 = i2 \<and> j1 + k1 = j2")
    case True
    from 2(3) True have "blk_match a b (i1, j1, k1)" "blk_match a b (i1 + k1, j1 + k1, k2)"
      by auto
    from blk_match_merge[OF this] 2(3)
    have "list_all (blk_match a b) (non_adjacent @ (i1, j1, k1 + k2) # blocks)"
      by auto
    from 2(1)[OF True this] True show ?thesis by simp
  next
    case False
    have "list_all (blk_match a b)
            ((if k1 \<noteq> 0 then non_adjacent @ [(i1, j1, k1)] else non_adjacent)
             @ (i2, j2, k2) # blocks)"
      using 2(3) by auto
    from 2(2)[OF False this] False show ?thesis by auto
  qed
qed

definition total_size :: "best list \<Rightarrow> nat" where
  "total_size bs = sum_list (map (\<lambda>(i, j, k). k) bs)"

lemma total_size_simps [simp]:
  "total_size [] = 0"
  "total_size ((i, j, k) # bs) = k + total_size bs"
  "total_size (xs @ ys) = total_size xs + total_size ys"
  by (simp_all add: total_size_def)

lemma collapse_size:
  "total_size (collapse_adjacent bs (i1, j1, k1) na) = total_size na + k1 + total_size bs"
  by (induction bs "(i1, j1, k1)" na arbitrary: i1 j1 k1 rule: collapse_adjacent.induct) auto

lemma total_size_insort: "total_size (insort x xs) = total_size [x] + total_size xs"
  by (induction xs) (auto simp: total_size_def)

lemma total_size_sort: "total_size (sort xs) = total_size xs"
proof (induction xs)
  case Nil
  then show ?case by simp
next
  case (Cons x xs)
  then show ?case
    using total_size_insort[of x "sort xs"] by (simp add: total_size_def)
qed

lemma mb_loop_result:
  "mb_inv a b [] (mb_loop a b [(0, length a, 0, length b)] [])"
  by (rule mb_loop_inv) (simp add: mb_inv_def)

lemma sorted_blocks_chain:
  "chain 0 0 (sort (mb_loop a b [(0, length a, 0, length b)] []))"
  using mb_loop_result[of a b] by (intro sort_chain) (auto simp: mb_inv_def)

lemma sorted_blocks_match:
  "list_all (blk_match a b) (sort (mb_loop a b [(0, length a, 0, length b)] []))"
  using mb_loop_result[of a b] by (auto simp: mb_inv_def list_all_iff)

lemma get_matching_blocks_eq:
  "get_matching_blocks a b =
     collapse_adjacent (sort (mb_loop a b [(0, length a, 0, length b)] [])) (0, 0, 0) []
     @ [(length a, length b, 0)]"
  by (simp add: get_matching_blocks_def Let_def)

lemma get_matching_blocks_match:
  "list_all (blk_match a b) (get_matching_blocks a b)"
proof -
  have "list_all (blk_match a b)
          ([] @ (0, 0, 0) # sort (mb_loop a b [(0, length a, 0, length b)] []))"
    using sorted_blocks_match[of a b] by (simp add: blk_match_def)
  from collapse_match[OF this] show ?thesis
    by (simp add: get_matching_blocks_eq blk_match_def)
qed

lemma get_matching_blocks_chain:
  "chain 0 0 (get_matching_blocks a b)"
proof -
  let ?c = "collapse_adjacent (sort (mb_loop a b [(0, length a, 0, length b)] [])) (0, 0, 0) []"
  have "chain 0 0 ([] @ (0, 0, 0) # sort (mb_loop a b [(0, length a, 0, length b)] []))"
    using sorted_blocks_chain[of a b] by simp
  from collapse_chain[OF this] have c: "chain 0 0 ?c" .
  have "list_all (blk_match a b) ?c"
    using get_matching_blocks_match[of a b] by (simp add: get_matching_blocks_eq)
  from bend_le[OF this, of 0 0]
  have "fst (bend 0 0 ?c) \<le> length a \<and> snd (bend 0 0 ?c) \<le> length b" by simp
  with c show ?thesis by (simp add: get_matching_blocks_eq chain_append)
qed

lemma get_matching_blocks_bend:
  "bend 0 0 (get_matching_blocks a b) = (length a, length b)"
  by (simp add: get_matching_blocks_eq bend_append)

lemma matches_eq:
  "matches a b = total_size (mb_loop a b [(0, length a, 0, length b)] [])"
  by (simp add: matches_def get_matching_blocks_eq collapse_size total_size_sort
      flip: total_size_def)

subsection \<open>Opcodes\<close>

text \<open>
  \<open>walk i j ops\<close> follows a list of opcodes from the position \<open>(i, j)\<close> and returns
  the position where it ends, or \<open>None\<close> when an opcode does not start where the walk
  stands or has a range that runs backwards.
\<close>

fun walk :: "nat \<Rightarrow> nat \<Rightarrow> opcode list \<Rightarrow> (nat \<times> nat) option" where
  "walk i j [] = Some (i, j)"
| "walk i j ((t, i1, i2, j1, j2) # ops) =
     (if i1 = i \<and> j1 = j \<and> i1 \<le> i2 \<and> j1 \<le> j2 then walk i2 j2 ops else None)"

fun well_tagged :: "opcode \<Rightarrow> bool" where
  "well_tagged (Replace, i1, i2, j1, j2) = (i1 < i2 \<and> j1 < j2)"
| "well_tagged (Delete, i1, i2, j1, j2) = (i1 < i2 \<and> j1 = j2)"
| "well_tagged (Insert, i1, i2, j1, j2) = (i1 = i2 \<and> j1 < j2)"
| "well_tagged (Equal, i1, i2, j1, j2) = (i1 < i2 \<and> j1 < j2 \<and> i2 - i1 = j2 - j1)"

definition in_range1 :: "nat \<Rightarrow> opcode \<Rightarrow> bool" where
  "in_range1 x op = (case op of (t, i1, i2, j1, j2) \<Rightarrow> i1 \<le> x \<and> x < i2)"

definition in_range2 :: "nat \<Rightarrow> opcode \<Rightarrow> bool" where
  "in_range2 y op = (case op of (t, i1, i2, j1, j2) \<Rightarrow> j1 \<le> y \<and> y < j2)"

lemma opcodes_loop_acc:
  "opcodes_loop bs i j answer = answer @ opcodes_loop bs i j []"
proof (induction bs arbitrary: i j answer)
  case Nil
  then show ?case by simp
next
  case (Cons x bs)
  obtain ai bj sz where x: "x = (ai, bj, sz)" by (cases x) auto
  show ?case
    unfolding x opcodes_loop.simps Let_def
    by (subst Cons.IH) (subst (2) Cons.IH, simp split: option.splits)
qed

definition gap :: "nat \<Rightarrow> nat \<Rightarrow> nat \<Rightarrow> nat \<Rightarrow> opcode list" where
  "gap i ai j bj =
     (if i < ai \<and> j < bj then [(Replace, i, ai, j, bj)]
      else if i < ai then [(Delete, i, ai, j, bj)]
      else if j < bj then [(Insert, i, ai, j, bj)]
      else [])"

lemma opcodes_loop_Cons:
  "opcodes_loop ((ai, bj, sz) # bs) i j [] =
     gap i ai j bj
     @ (if sz \<noteq> 0 then [(Equal, ai, ai + sz, bj, bj + sz)] else [])
     @ opcodes_loop bs (ai + sz) (bj + sz) []"
  unfolding opcodes_loop.simps Let_def
  by (subst opcodes_loop_acc) (simp add: gap_def)

lemma walk_append:
  "walk i j (xs @ ys) = (case walk i j xs of None \<Rightarrow> None | Some (i', j') \<Rightarrow> walk i' j' ys)"
proof (induction xs arbitrary: i j)
  case Nil
  then show ?case by simp
next
  case (Cons x xs)
  obtain t i1 i2 j1 j2 where x: "x = (t, i1, i2, j1, j2)" by (cases x) auto
  show ?case by (simp add: x Cons.IH)
qed

lemma walk_gap: "i \<le> ai \<Longrightarrow> j \<le> bj \<Longrightarrow> walk i j (gap i ai j bj) = Some (ai, bj)"
  by (auto simp: gap_def)

lemma opcodes_walk:
  "chain i j bs \<Longrightarrow> walk i j (opcodes_loop bs i j []) = Some (bend i j bs)"
proof (induction bs arbitrary: i j)
  case Nil
  then show ?case by simp
next
  case (Cons x bs)
  obtain ai bj sz where x: "x = (ai, bj, sz)" by (cases x) auto
  from Cons.prems have c: "i \<le> ai" "j \<le> bj" "chain (ai + sz) (bj + sz) bs"
    by (simp_all add: x)
  show ?case
    unfolding x opcodes_loop_Cons
    using Cons.IH[OF c(3)]
    by (cases "sz = 0") (simp_all add: walk_append walk_gap[OF c(1,2)])
qed

lemma opcodes_tagged:
  "chain i j bs \<Longrightarrow> list_all well_tagged (opcodes_loop bs i j [])"
proof (induction bs arbitrary: i j)
  case Nil
  then show ?case by simp
next
  case (Cons x bs)
  obtain ai bj sz where x: "x = (ai, bj, sz)" by (cases x) auto
  from Cons.prems have c: "i \<le> ai" "j \<le> bj" "chain (ai + sz) (bj + sz) bs"
    by (simp_all add: x)
  have "list_all well_tagged (gap i ai j bj)" using c(1,2) by (auto simp: gap_def)
  then show ?case
    unfolding x opcodes_loop_Cons using Cons.IH[OF c(3)] by simp
qed

lemma walk_mono: "walk i j ops = Some (i', j') \<Longrightarrow> i \<le> i' \<and> j \<le> j'"
proof (induction ops arbitrary: i j)
  case Nil
  then show ?case by simp
next
  case (Cons x ops)
  obtain t i1 i2 j1 j2 where x: "x = (t, i1, i2, j1, j2)" by (cases x) auto
  from Cons.prems have "walk i2 j2 ops = Some (i', j')" "i \<le> i2" "j \<le> j2"
    by (auto simp: x split: if_splits)
  with Cons.IH[of i2 j2] show ?case by auto
qed

lemma walk_count1:
  "walk i j ops = Some (i', j') \<Longrightarrow>
   length (filter (in_range1 x) ops) = (if i \<le> x \<and> x < i' then 1 else 0)"
proof (induction ops arbitrary: i j)
  case Nil
  then show ?case by simp
next
  case (Cons op ops)
  obtain t i1 i2 j1 j2 where op: "op = (t, i1, i2, j1, j2)" by (cases op) auto
  from Cons.prems have w: "walk i2 j2 ops = Some (i', j')" and e: "i1 = i" "i \<le> i2"
    by (auto simp: op split: if_splits)
  from walk_mono[OF w] have "i2 \<le> i'" by simp
  with Cons.IH[OF w] e show ?case
    by (auto simp: op in_range1_def)
qed

lemma walk_count2:
  "walk i j ops = Some (i', j') \<Longrightarrow>
   length (filter (in_range2 y) ops) = (if j \<le> y \<and> y < j' then 1 else 0)"
proof (induction ops arbitrary: i j)
  case Nil
  then show ?case by simp
next
  case (Cons op ops)
  obtain t i1 i2 j1 j2 where op: "op = (t, i1, i2, j1, j2)" by (cases op) auto
  from Cons.prems have w: "walk i2 j2 ops = Some (i', j')" and e: "j1 = j" "j \<le> j2"
    by (auto simp: op split: if_splits)
  from walk_mono[OF w] have "j2 \<le> j'" by simp
  with Cons.IH[OF w] e show ?case
    by (auto simp: op in_range2_def)
qed

text \<open>
  C4 (partition). For all line lists \<open>a\<close> and \<open>b\<close>, the opcodes of the aligner start
  at \<open>(0, 0)\<close>, each opcode starts in both sequences where the one before it ended,
  no range runs backwards, and the last one ends at \<open>(len(a), len(b))\<close> (\<open>walk\<close>).
  Every opcode is a non-empty run of the shape its tag names. Every index of \<open>a\<close>
  lies in the first range of exactly one opcode and every index of \<open>b\<close> in the second
  range of exactly one opcode; an index outside a sequence lies in none.
\<close>

theorem partition:
  "walk 0 0 (get_opcodes a b) = Some (length a, length b)
   \<and> list_all well_tagged (get_opcodes a b)
   \<and> length (filter (in_range1 x) (get_opcodes a b)) = (if x < length a then 1 else 0)
   \<and> length (filter (in_range2 y) (get_opcodes a b)) = (if y < length b then 1 else 0)"
proof -
  have w: "walk 0 0 (get_opcodes a b) = Some (length a, length b)"
    unfolding get_opcodes_def
    using opcodes_walk[OF get_matching_blocks_chain, of a b]
    by (simp add: get_matching_blocks_bend)
  have t: "list_all well_tagged (get_opcodes a b)"
    unfolding get_opcodes_def by (rule opcodes_tagged[OF get_matching_blocks_chain])
  from w t walk_count1[OF w, of x] walk_count2[OF w, of y] show ?thesis by simp
qed

subsection \<open>Replaying the opcodes\<close>

text \<open>
  \<open>replay\<close> is the edit script read as the specification states it: the lines
  \<open>lines1[i1:i2]\<close> are kept for an \<open>equal\<close> run, \<open>lines2[j1:j2]\<close> is put in for a
  \<open>replace\<close> or an \<open>insert\<close> run, and a \<open>delete\<close> run gives nothing.
  \<open>replay_records\<close> does the same from the difference records: it takes the next
  record at every opcode that is not \<open>equal\<close> and puts in the new lines of a modified
  record, the lines of an added record and nothing for a deleted one.
\<close>

definition replay :: "'a list \<Rightarrow> 'a list \<Rightarrow> opcode list \<Rightarrow> 'a list" where
  "replay lines1 lines2 opcodes =
     concat (map (\<lambda>(t, i1, i2, j1, j2).
        case t of
          Equal \<Rightarrow> slice lines1 i1 i2
        | Replace \<Rightarrow> slice lines2 j1 j2
        | Insert \<Rightarrow> slice lines2 j1 j2
        | Delete \<Rightarrow> []) opcodes)"

fun emitted :: "difference \<Rightarrow> string list" where
  "emitted (Modified p old new c) = new"
| "emitted (Deleted p ls c) = []"
| "emitted (Added p ls c) = ls"

fun replay_records :: "string list \<Rightarrow> opcode list \<Rightarrow> difference list \<Rightarrow> string list" where
  "replay_records lines1 [] ds = []"
| "replay_records lines1 ((t, i1, i2, j1, j2) # ops) ds =
     (if t = Equal then slice lines1 i1 i2 @ replay_records lines1 ops ds
      else (case ds of
              [] \<Rightarrow> replay_records lines1 ops []
            | d # ds' \<Rightarrow> emitted d @ replay_records lines1 ops ds'))"

lemma slice_append: "i \<le> j \<Longrightarrow> j \<le> k \<Longrightarrow> slice xs i j @ slice xs j k = slice xs i k"
proof -
  assume ij: "i \<le> j" and jk: "j \<le> k"
  have "take (j - i) (drop i xs) @ take (k - j) (drop (j - i) (drop i xs))
        = take (j - i + (k - j)) (drop i xs)"
    by (simp add: take_add)
  then show ?thesis using ij jk by (simp add: slice_def)
qed

lemma slice_same [simp]: "slice xs i i = []"
  by (simp add: slice_def)

lemma slice_all [simp]: "slice xs 0 (length xs) = xs"
  by (simp add: slice_def)

lemma slice_match:
  assumes "blk_match a b (ai, bj, sz)"
  shows "slice a ai (ai + sz) = slice b bj (bj + sz)"
proof (rule nth_equalityI)
  from assms have b: "ai + sz \<le> length a" "bj + sz \<le> length b"
    and m: "\<And>t. t < sz \<Longrightarrow> a ! (ai + t) = b ! (bj + t)"
    by (simp_all add: blk_match_def)
  show l: "length (slice a ai (ai + sz)) = length (slice b bj (bj + sz))"
    using b by (simp add: slice_def)
  fix t assume "t < length (slice a ai (ai + sz))"
  then have t: "t < sz" using b by (simp add: slice_def)
  then show "slice a ai (ai + sz) ! t = slice b bj (bj + sz) ! t"
    using b m[OF t] by (simp add: slice_def)
qed

lemma replay_append: "replay a b (xs @ ys) = replay a b xs @ replay a b ys"
  by (simp add: replay_def)

lemma replay_gap: "i \<le> ai \<Longrightarrow> j \<le> bj \<Longrightarrow> replay a b (gap i ai j bj) = slice b j bj"
  by (auto simp: gap_def replay_def)

lemma replay_opcodes:
  "chain i j bs \<Longrightarrow> list_all (blk_match a b) bs \<Longrightarrow>
   replay a b (opcodes_loop bs i j []) = slice b j (snd (bend i j bs))"
proof (induction bs arbitrary: i j)
  case Nil
  then show ?case by (simp add: replay_def)
next
  case (Cons x bs)
  obtain ai bj sz where x: "x = (ai, bj, sz)" by (cases x) auto
  from Cons.prems have c: "i \<le> ai" "j \<le> bj" "chain (ai + sz) (bj + sz) bs"
    and m: "blk_match a b (ai, bj, sz)" "list_all (blk_match a b) bs"
    by (simp_all add: x)
  have e: "replay a b (if sz \<noteq> 0 then [(Equal, ai, ai + sz, bj, bj + sz)] else [])
           = slice b bj (bj + sz)"
    using slice_match[OF m(1)] by (simp add: replay_def)
  from bend_ge[OF c(3)] have ge: "bj + sz \<le> snd (bend (ai + sz) (bj + sz) bs)" by simp
  have "replay a b (opcodes_loop (x # bs) i j [])
        = slice b j bj @ slice b bj (bj + sz)
          @ slice b (bj + sz) (snd (bend (ai + sz) (bj + sz) bs))"
    unfolding x opcodes_loop_Cons replay_append
    by (simp only: replay_gap[OF c(1,2)] e Cons.IH[OF c(3) m(2)])
  also have "\<dots> = slice b j (snd (bend (ai + sz) (bj + sz) bs))"
    using c(2) ge by (simp add: slice_append)
  finally show ?case by (simp add: x)
qed

lemma replay_records_eq:
  "replay_records lines1 ops (concat (map (\<lambda>op. differences_step lines1 lines2 op []) ops))
   = replay lines1 lines2 ops"
proof (induction ops)
  case Nil
  then show ?case by (simp add: replay_def)
next
  case (Cons op ops)
  obtain t i1 i2 j1 j2 where op: "op = (t, i1, i2, j1, j2)" by (cases op) auto
  show ?case
    using Cons.IH unfolding op by (cases t) (simp_all add: replay_def)
qed

text \<open>
  C3 (reconstruction). For all line lists \<open>a\<close> and \<open>b\<close>, replaying the opcodes of the
  aligner against \<open>a\<close> gives \<open>b\<close>; and replaying the list of difference records
  together with the equal runs against the lines of document 1 gives the lines of
  document 2.
\<close>

theorem reconstruction:
  "replay a b (get_opcodes a b) = b
   \<and> replay_records lines1 (get_opcodes lines1 lines2)
       (get_differences lines1 lines2 (get_opcodes lines1 lines2)) = lines2"
proof -
  have r: "replay a b (get_opcodes a b) = b" for a b :: "'x list"
    unfolding get_opcodes_def
    using replay_opcodes[OF get_matching_blocks_chain get_matching_blocks_match, of a b]
    by (simp add: get_matching_blocks_bend)
  have "replay_records lines1 (get_opcodes lines1 lines2)
       (get_differences lines1 lines2 (get_opcodes lines1 lines2))
     = replay lines1 lines2 (get_opcodes lines1 lines2)"
    by (simp add: get_differences_def fold_differences_step replay_records_eq)
  with r[of a b] r[of lines1 lines2] show ?thesis by simp
qed

subsection \<open>The similarity ratio\<close>

lemma chain_size:
  "chain i j bs \<Longrightarrow>
   i + total_size bs \<le> fst (bend i j bs) \<and> j + total_size bs \<le> snd (bend i j bs)"
proof (induction bs arbitrary: i j)
  case Nil
  then show ?case by simp
next
  case (Cons x bs)
  obtain ai bj sz where x: "x = (ai, bj, sz)" by (cases x) auto
  from Cons.prems have c: "i \<le> ai" "j \<le> bj" "chain (ai + sz) (bj + sz) bs"
    by (simp_all add: x)
  from Cons.IH[OF c(3)] c(1,2) show ?case by (simp add: x)
qed

lemma matches_total: "matches a b = total_size (get_matching_blocks a b)"
  by (simp add: matches_def total_size_def)

lemma matches_le: "matches a b \<le> length a \<and> matches a b \<le> length b"
  using chain_size[OF get_matching_blocks_chain, of a b]
  by (simp add: matches_total get_matching_blocks_bend)

lemma full_chain_equal:
  "chain i j bs \<Longrightarrow> list_all (blk_match a b) bs \<Longrightarrow> bend i j bs = (ie, je) \<Longrightarrow>
   i + total_size bs = ie \<Longrightarrow> j + total_size bs = je \<Longrightarrow>
   slice a i ie = slice b j je"
proof (induction bs arbitrary: i j)
  case Nil
  then show ?case by simp
next
  case (Cons x bs)
  obtain ai bj sz where x: "x = (ai, bj, sz)" by (cases x) auto
  from Cons.prems have c: "i \<le> ai" "j \<le> bj" "chain (ai + sz) (bj + sz) bs"
    and m: "blk_match a b (ai, bj, sz)" "list_all (blk_match a b) bs"
    and e: "bend (ai + sz) (bj + sz) bs = (ie, je)"
    and t: "i + (sz + total_size bs) = ie" "j + (sz + total_size bs) = je"
    by (simp_all add: x)
  from chain_size[OF c(3)] e
  have le: "ai + sz + total_size bs \<le> ie" "bj + sz + total_size bs \<le> je" by simp_all
  with t c have eq: "ai = i" "bj = j" by simp_all
  have r: "slice a (ai + sz) ie = slice b (bj + sz) je"
    by (rule Cons.IH[OF c(3) m(2) e]) (use t eq in simp_all)
  have "slice a i ie = slice a ai (ai + sz) @ slice a (ai + sz) ie"
    using le eq by (simp add: slice_append)
  also have "\<dots> = slice b bj (bj + sz) @ slice b (bj + sz) je"
    by (simp add: slice_match[OF m(1)] r)
  also have "\<dots> = slice b j je"
    using le eq by (simp add: slice_append)
  finally show ?case .
qed

lemma all_matched_equal:
  assumes "matches a b = length a" "matches a b = length b"
  shows "a = b"
proof -
  have "slice a 0 (length a) = slice b 0 (length b)"
    by (rule full_chain_equal[OF get_matching_blocks_chain get_matching_blocks_match
          get_matching_blocks_bend])
       (use assms in \<open>simp_all add: matches_total\<close>)
  then show ?thesis by simp
qed

lemma blocks_share:
  assumes "mb_inv a b [] acc" "acc \<noteq> []"
  shows "set a \<inter> set b \<noteq> {}"
proof -
  from assms(2) obtain i j k where blk: "(i, j, k) \<in> set acc"
    by (cases acc) auto
  with assms(1) have "blk_match a b (i, j, k)" "0 < k"
    by (auto simp: mb_inv_def)
  then have "i < length a" "j < length b" "a ! i = b ! j"
    by (auto simp: blk_match_def)
  then have "a ! i \<in> set a" "a ! i \<in> set b" by (auto simp: in_set_conv_nth)
  then show ?thesis by blast
qed

lemma disjoint_matches:
  assumes "set a \<inter> set b = {}"
  shows "matches a b = 0"
proof -
  have "mb_loop a b [(0, length a, 0, length b)] [] = []"
    using blocks_share[OF mb_loop_result, of a b] assms by blast
  then show ?thesis by (simp add: matches_eq)
qed

text \<open>The number of elements of an opcode that are matched: the length of an \<open>equal\<close> run.\<close>

fun equal_len :: "opcode \<Rightarrow> nat" where
  "equal_len (t, i1, i2, j1, j2) = (if t = Equal then i2 - i1 else 0)"

lemma opcodes_equal_total:
  "sum_list (map equal_len (opcodes_loop bs i j [])) = total_size bs"
proof (induction bs arbitrary: i j)
  case Nil
  then show ?case by simp
next
  case (Cons x bs)
  obtain ai bj sz where x: "x = (ai, bj, sz)" by (cases x) auto
  have g: "sum_list (map equal_len (gap i ai j bj)) = 0"
    by (simp add: gap_def)
  show ?case unfolding x opcodes_loop_Cons
    using Cons.IH[of "ai + sz" "bj + sz"] by (cases "sz = 0") (simp_all add: g)
qed

lemma matches_opcodes:
  "matches a b = sum_list (map equal_len (get_opcodes a b))"
  by (simp add: get_opcodes_def opcodes_equal_total matches_total)

text \<open>
  An element shared by both sequences is found by \<open>find_longest_match\<close> unless it is
  popular: the size of the best block never shrinks, and the row of the shared element
  sets it to at least 1.
\<close>

definition bsize :: "(nat \<rightharpoonup> nat) \<times> best \<Rightarrow> nat" where
  "bsize st = snd (snd (snd st))"

lemma inner_mono:
  "bs \<le> bsize (flm_inner blo bhi i j2len js (m, bi, bj, bs))"
proof (induction js arbitrary: m bi bj bs)
  case Nil
  then show ?case by (simp add: bsize_def)
next
  case (Cons j js)
  show ?case
  proof (cases "j < blo \<or> bhi \<le> j")
    case True
    then show ?thesis using Cons.IH by (auto simp: bsize_def)
  next
    case False
    define k where "k = j2lenget j2len j + 1"
    show ?thesis
    proof (cases "k > bs")
      case True
      have "k \<le> bsize (flm_inner blo bhi i j2len js (m(j \<mapsto> k), i + 1 - k, j + 1 - k, k))"
        by (rule Cons.IH)
      with True \<open>\<not> (j < blo \<or> bhi \<le> j)\<close> show ?thesis
        by (simp add: k_def Let_def)
    next
      case False
      have "bs \<le> bsize (flm_inner blo bhi i j2len js (m(j \<mapsto> k), bi, bj, bs))"
        by (rule Cons.IH)
      with False \<open>\<not> (j < blo \<or> bhi \<le> j)\<close> show ?thesis
        by (simp add: k_def Let_def)
    qed
  qed
qed

lemma inner_hit:
  "j0 \<in> set js \<Longrightarrow> \<forall>j\<in>set js. blo \<le> j \<and> j < bhi \<Longrightarrow>
   1 \<le> bsize (flm_inner blo bhi i j2len js (m, bi, bj, bs))"
proof (induction js arbitrary: m bi bj bs)
  case Nil
  then show ?case by simp
next
  case (Cons j js)
  define k where "k = j2lenget j2len j + 1"
  from Cons.prems(2) have jb: "\<not> j < blo" "\<not> bhi \<le> j" and rest: "\<forall>j\<in>set js. blo \<le> j \<and> j < bhi"
    by auto
  have step: "flm_inner blo bhi i j2len (j # js) (m, bi, bj, bs) =
        flm_inner blo bhi i j2len js
          (m(j \<mapsto> k), if k > bs then (i + 1 - k, j + 1 - k, k) else (bi, bj, bs))"
    using jb by (simp add: k_def Let_def)
  show ?case
  proof (cases "k > bs")
    case True
    have "k \<le> bsize (flm_inner blo bhi i j2len js (m(j \<mapsto> k), i + 1 - k, j + 1 - k, k))"
      by (rule inner_mono)
    then show ?thesis unfolding step using True by (simp add: k_def)
  next
    case False
    have "bs \<le> bsize (flm_inner blo bhi i j2len js (m(j \<mapsto> k), bi, bj, bs))"
      by (rule inner_mono)
    then show ?thesis unfolding step using False by (simp add: k_def)
  qed
qed

lemma row_mono: "bsize st \<le> bsize (flm_row a b blo bhi i st)"
proof -
  obtain m bi bj bs where st: "st = (m, bi, bj, bs)" by (cases st) auto
  have "bs \<le> bsize (flm_inner blo bhi i m (chain_b b (a ! i)) (Map.empty, bi, bj, bs))"
    by (rule inner_mono)
  then show ?thesis
    by (simp add: st flm_row_def bsize_def)
qed

lemma fold_mono: "bsize st \<le> bsize (fold (flm_row a b blo bhi) rows st)"
proof (induction rows arbitrary: st)
  case Nil
  then show ?case by simp
next
  case (Cons r rows)
  from row_mono[of st a b blo bhi r] Cons.IH[of "flm_row a b blo bhi r st"]
  show ?case by simp
qed

lemma row_hit:
  assumes "\<not> popular b (a ! i)" "j0 < length b" "b ! j0 = a ! i"
  shows "1 \<le> bsize (flm_row a b 0 (length b) i st)"
proof -
  obtain m bi bj bs where st: "st = (m, bi, bj, bs)" by (cases st) auto
  have "j0 \<in> set (chain_b b (a ! i))"
    by (rule chain_b_complete[OF assms])
  moreover have "\<forall>j\<in>set (chain_b b (a ! i)). 0 \<le> j \<and> j < length b"
    by (simp add: chain_b_subset)
  ultimately have
    "1 \<le> bsize (flm_inner 0 (length b) i m (chain_b b (a ! i)) (Map.empty, bi, bj, bs))"
    by (rule inner_hit)
  then show ?thesis
    by (simp add: st flm_row_def)
qed

lemma extend_left_size:
  "snd (snd bst) \<le> snd (snd (extend_left a b alo blo bst))"
proof (induction a b alo blo bst rule: extend_left.induct)
  case (1 a b alo blo besti bestj bestsize)
  show ?case
  proof (cases "besti > alo \<and> bestj > blo \<and> a ! (besti - 1) = b ! (bestj - 1)")
    case True
    from 1[OF True] True show ?thesis by (subst extend_left.simps) simp
  next
    case False
    then show ?thesis by (subst extend_left.simps) auto
  qed
qed

lemma extend_right_size:
  "snd (snd bst) \<le> snd (snd (extend_right a b ahi bhi bst))"
proof (induction a b ahi bhi bst rule: extend_right.induct)
  case (1 a b ahi bhi besti bestj bestsize)
  show ?case
  proof (cases "besti + bestsize < ahi \<and> bestj + bestsize < bhi
         \<and> a ! (besti + bestsize) = b ! (bestj + bestsize)")
    case True
    from 1[OF True] True show ?thesis by (subst extend_right.simps) simp
  next
    case False
    then show ?thesis by (subst extend_right.simps) auto
  qed
qed

lemma find_longest_match_hit:
  assumes "i0 < length a" "j0 < length b" "b ! j0 = a ! i0" "\<not> popular b (a ! i0)"
  shows "1 \<le> snd (snd (find_longest_match a b 0 (length a) 0 (length b)))"
proof -
  let ?row = "flm_row a b 0 (length b)"
  let ?init = "(Map.empty, 0, 0, 0) :: (nat \<rightharpoonup> nat) \<times> best"
  have "[0..<length a] = [0..<i0] @ [i0..<length a]"
    using upt_add_eq_append[of 0 i0 "length a - i0"] assms(1) by simp
  then have u: "[0..<length a] = [0..<i0] @ i0 # [Suc i0..<length a]"
    using assms(1) by (simp add: upt_conv_Cons)
  have "1 \<le> bsize (?row i0 (fold ?row [0..<i0] ?init))"
    by (rule row_hit[OF assms(4,2,3)])
  also have "\<dots> \<le> bsize (fold ?row [Suc i0..<length a] (?row i0 (fold ?row [0..<i0] ?init)))"
    by (rule fold_mono)
  also have "\<dots> = bsize (fold ?row [0..<length a] ?init)"
    by (subst u) simp
  finally have "1 \<le> snd (snd (snd (fold ?row [0..<length a] ?init)))"
    by (simp add: bsize_def)
  also have "\<dots> \<le> snd (snd (extend_left a b 0 0 (snd (fold ?row [0..<length a] ?init))))"
    by (rule extend_left_size)
  also have "\<dots> \<le> snd (snd (extend_right a b (length a) (length b)
                (extend_left a b 0 0 (snd (fold ?row [0..<length a] ?init)))))"
    by (rule extend_right_size)
  finally show ?thesis
    by (simp add: find_longest_match_def split_beta)
qed

lemma mb_loop_size_ge: "total_size acc \<le> total_size (mb_loop a b queue acc)"
proof (induction a b queue acc rule: mb_loop.induct)
  case (1 a b matching_blocks)
  then show ?case by (simp add: mb_loop.simps)
next
  case (2 a b alo ahi blo bhi queue matching_blocks)
  obtain i j k where m: "find_longest_match a b alo ahi blo bhi = (i, j, k)"
    by (cases "find_longest_match a b alo ahi blo bhi") auto
  show ?case
  proof (cases "k = 0")
    case True
    then have nk: "\<not> k \<noteq> 0" by simp
    from 2(2)[OF m[symmetric] refl nk] m True show ?thesis by (simp add: mb_loop.simps)
  next
    case False
    from 2(1)[OF m[symmetric] refl False] m False show ?thesis
      by (simp add: mb_loop.simps)
  qed
qed

lemma shared_matches:
  assumes "x \<in> set a" "x \<in> set b" "\<not> popular b x"
  shows "0 < matches a b"
proof -
  from assms(1,2) obtain i0 j0 where
    ij: "i0 < length a" "j0 < length b" "a ! i0 = x" "b ! j0 = x"
    by (auto simp: in_set_conv_nth)
  obtain i j k where m: "find_longest_match a b 0 (length a) 0 (length b) = (i, j, k)"
    by (cases "find_longest_match a b 0 (length a) 0 (length b)") auto
  from find_longest_match_hit[OF ij(1,2), of ] ij(3,4) assms(3) m have k: "1 \<le> k"
    by simp
  have "\<exists>queue. mb_loop a b [(0, length a, 0, length b)] []
          = mb_loop a b queue ([] @ [(i, j, k)])"
    using m k by (subst mb_loop.simps) auto
  then obtain queue where
    "mb_loop a b [(0, length a, 0, length b)] [] = mb_loop a b queue ([] @ [(i, j, k)])"
    by blast
  then have "total_size ([] @ [(i, j, k)])
      \<le> total_size (mb_loop a b [(0, length a, 0, length b)] [])"
    using mb_loop_size_ge[of "[] @ [(i, j, k)]" a b queue] by simp
  with k show ?thesis by (simp add: matches_eq)
qed

lemma not_popular_short: "length b < 200 \<Longrightarrow> \<not> popular b x"
  by (simp add: popular_def)

text \<open>
  For two equal sequences the best block stays on the diagonal: \<open>run a r\<close> is the
  number of consecutive elements that are not popular and end just before position
  \<open>r\<close>; no entry of \<open>j2len\<close> exceeds the run of its row or of its column, and the
  diagonal entry is found no later than any other entry of the same length.
\<close>

fun run :: "'a list \<Rightarrow> nat \<Rightarrow> nat" where
  "run a 0 = 0"
| "run a (Suc r) = (if popular a (a ! r) then 0 else run a r + 1)"

declare run.simps [simp del]

definition entries_le :: "'a list \<Rightarrow> nat \<Rightarrow> (nat \<rightharpoonup> nat) \<Rightarrow> bool" where
  "entries_le a i m = (\<forall>j v. m j = Some v \<longrightarrow> v \<le> run a i \<and> v \<le> run a (Suc j))"

definition diag_inv :: "'a list \<Rightarrow> nat \<Rightarrow> (nat \<rightharpoonup> nat) \<times> best \<Rightarrow> bool" where
  "diag_inv a i st =
     (case st of (j2len, bi, bj, bs) \<Rightarrow>
        entries_le a i j2len \<and> j2lenget j2len i = run a i \<and> bi = bj
        \<and> (\<forall>r\<le>i. run a r \<le> bs))"

lemma j2lenget_le:
  assumes "entries_le a i m"
  shows "j2lenget m j \<le> run a i \<and> j2lenget m j \<le> run a j"
proof (cases "j = 0 \<or> m (j - 1) = None")
  case True
  then show ?thesis by (auto simp: j2lenget_def)
next
  case False
  then obtain v where v: "m (j - 1) = Some v" and j: "0 < j" by auto
  from assms[unfolded entries_le_def, rule_format, OF v] j
  have "v \<le> run a i" "v \<le> run a j" by simp_all
  then show ?thesis using v j by (simp add: j2lenget_def)
qed

lemma inner_diag:
  assumes E: "entries_le a i j2len" and D: "j2lenget j2len i = run a i"
    and np: "\<not> popular a (a ! i)"
  shows "sorted_wrt (<) js \<Longrightarrow> \<forall>j\<in>set js. j < n \<and> a ! j = a ! i \<Longrightarrow>
    entries_le a (Suc i) m \<Longrightarrow> \<forall>r\<le>i. run a r \<le> bs \<Longrightarrow>
    i \<in> set js \<or> ((\<forall>j\<in>set js. i < j) \<and> m i = Some (run a (Suc i)) \<and> run a (Suc i) \<le> bs) \<Longrightarrow>
    (case flm_inner 0 n i j2len js (m, bi, bi, bs) of (m', bi', bj', bs') \<Rightarrow>
       entries_le a (Suc i) m' \<and> bi' = bj' \<and> (\<forall>r\<le>Suc i. run a r \<le> bs')
       \<and> m' i = Some (run a (Suc i)))"
proof (induction js arbitrary: m bi bs)
  case Nil
  then show ?case by (auto simp: le_Suc_eq)
next
  case (Cons j js)
  define k where "k = j2lenget j2len j + 1"
  from Cons.prems(2) have jn: "j < n" and aj: "a ! j = a ! i"
    and rest: "\<forall>j\<in>set js. j < n \<and> a ! j = a ! i" by auto
  from Cons.prems(1) have srt: "sorted_wrt (<) js" and gt: "\<forall>j'\<in>set js. j < j'" by auto
  from j2lenget_le[OF E, of j] np aj
  have k1: "k \<le> run a (Suc i)" and k2: "k \<le> run a (Suc j)"
    by (simp_all add: k_def run.simps)
  have e': "entries_le a (Suc i) (m(j \<mapsto> k))"
    using Cons.prems(3) k1 k2 by (auto simp: entries_le_def)
  have step: "flm_inner 0 n i j2len (j # js) (m, bi, bi, bs) =
        flm_inner 0 n i j2len js
          (m(j \<mapsto> k), if k > bs then (i + 1 - k, j + 1 - k, k) else (bi, bi, bs))"
    using jn by (simp add: k_def Let_def)
  consider (lt) "j < i" | (eq) "j = i" | (gt) "i < j" by linarith
  then show ?case
  proof cases
    case lt
    then have "Suc j \<le> i" by simp
    with Cons.prems(4) have "run a (Suc j) \<le> bs" by blast
    with k2 have nk: "\<not> k > bs" by simp
    have P: "i \<in> set js \<or> ((\<forall>j\<in>set js. i < j) \<and> (m(j \<mapsto> k)) i = Some (run a (Suc i))
               \<and> run a (Suc i) \<le> bs)"
      using Cons.prems(5) lt by auto
    have st': "(if k > bs then (i + 1 - k, j + 1 - k, k) else (bi, bi, bs)) = (bi, bi, bs)"
      using nk by simp
    from Cons.IH[OF srt rest e' Cons.prems(4) P] show ?thesis
      unfolding step st' .
  next
    case eq
    have kk: "k = run a (Suc i)" using D np eq by (simp add: k_def run.simps)
    show ?thesis
    proof (cases "k > bs")
      case True
      have b: "\<forall>r\<le>i. run a r \<le> k" using Cons.prems(4) True by auto
      have P: "i \<in> set js \<or> ((\<forall>j\<in>set js. i < j) \<and> (m(j \<mapsto> k)) i = Some (run a (Suc i))
               \<and> run a (Suc i) \<le> k)"
        using gt eq kk by simp
      have st': "(if k > bs then (i + 1 - k, j + 1 - k, k) else (bi, bi, bs))
                 = (i + 1 - k, i + 1 - k, k)"
        using True eq by simp
      from Cons.IH[OF srt rest e' b P] show ?thesis
        unfolding step st' .
    next
      case False
      have P: "i \<in> set js \<or> ((\<forall>j\<in>set js. i < j) \<and> (m(j \<mapsto> k)) i = Some (run a (Suc i))
               \<and> run a (Suc i) \<le> bs)"
        using gt eq kk False by simp
      have st': "(if k > bs then (i + 1 - k, j + 1 - k, k) else (bi, bi, bs)) = (bi, bi, bs)"
        using False by simp
      from Cons.IH[OF srt rest e' Cons.prems(4) P] show ?thesis
        unfolding step st' .
    qed
  next
    case gt
    with Cons.prems(5) \<open>\<forall>j'\<in>set js. j < j'\<close>
    have d: "m i = Some (run a (Suc i))" "run a (Suc i) \<le> bs" by auto
    with k1 have nk: "\<not> k > bs" by simp
    have P: "i \<in> set js \<or> ((\<forall>j\<in>set js. i < j) \<and> (m(j \<mapsto> k)) i = Some (run a (Suc i))
               \<and> run a (Suc i) \<le> bs)"
      using d gt \<open>\<forall>j'\<in>set js. j < j'\<close> by auto
    have st': "(if k > bs then (i + 1 - k, j + 1 - k, k) else (bi, bi, bs)) = (bi, bi, bs)"
      using nk by simp
    from Cons.IH[OF srt rest e' Cons.prems(4) P] show ?thesis
      unfolding step st' .
  qed
qed

lemma row_diag:
  assumes "diag_inv a i st" "i < length a"
  shows "diag_inv a (Suc i) (flm_row a a 0 (length a) i st)"
proof -
  obtain j2len bi bj bs where st: "st = (j2len, bi, bj, bs)" by (cases st) auto
  from assms(1) have E: "entries_le a i j2len" and D: "j2lenget j2len i = run a i"
    and B: "bi = bj" "\<forall>r\<le>i. run a r \<le> bs"
    by (simp_all add: diag_inv_def st)
  show ?thesis
  proof (cases "popular a (a ! i)")
    case True
    then have "flm_row a a 0 (length a) i st = (Map.empty, bi, bj, bs)"
      by (simp add: flm_row_def st chain_b_def)
    then show ?thesis using B True
      by (auto simp: diag_inv_def entries_le_def j2lenget_def le_Suc_eq run.simps)
  next
    case False
    have i_in: "i \<in> set (chain_b a (a ! i))"
      by (rule chain_b_complete[OF False assms(2) refl])
    have el: "\<forall>j\<in>set (chain_b a (a ! i)). j < length a \<and> a ! j = a ! i"
      by (simp add: chain_b_subset)
    have e0: "entries_le a (Suc i) Map.empty" by (simp add: entries_le_def)
    from inner_diag[OF E D False chain_b_sorted el e0 B(2), of bi] i_in
    show ?thesis
      by (auto simp: diag_inv_def flm_row_def st B(1) j2lenget_def split: prod.splits)
  qed
qed

lemma fold_diag:
  "diag_inv a i st \<Longrightarrow> i + m \<le> length a \<Longrightarrow>
   diag_inv a (i + m) (fold (flm_row a a 0 (length a)) [i..<i + m] st)"
proof (induction m arbitrary: i st)
  case 0
  then show ?case by simp
next
  case (Suc m)
  have u: "[i..<i + Suc m] = i # [Suc i..<Suc i + m]"
    by (simp add: upt_conv_Cons del: upt_Suc)
  have "diag_inv a (Suc i) (flm_row a a 0 (length a) i st)"
    by (rule row_diag) (use Suc.prems in auto)
  from Suc.IH[OF this] Suc.prems(2) show ?case
    unfolding u by simp
qed

lemma extend_left_self: "extend_left a a 0 0 (p, p, s) = (0, 0, s + p)"
proof (induction p arbitrary: s)
  case 0
  then show ?case by (subst extend_left.simps) simp
next
  case (Suc p)
  show ?case by (subst extend_left.simps) (simp add: Suc.IH)
qed

lemma extend_right_self:
  "s \<le> n \<Longrightarrow> extend_right a a n n (0, 0, s) = (0, 0, n)"
proof (induction "n - s" arbitrary: s)
  case 0
  then show ?case by (subst extend_right.simps) simp
next
  case (Suc d)
  then have "extend_right a a n n (0, 0, s + 1) = (0, 0, n)" by auto
  with Suc show ?case by (subst extend_right.simps) auto
qed

lemma find_longest_match_self:
  "find_longest_match a a 0 (length a) 0 (length a) = (0, 0, length a)"
proof -
  let ?st = "fold (flm_row a a 0 (length a)) [0..<length a] (Map.empty, 0, 0, 0)"
  have "diag_inv a 0 (Map.empty, 0, 0, 0)"
    by (simp add: diag_inv_def entries_le_def j2lenget_def run.simps)
  from fold_diag[OF this, of "length a"] have d: "diag_inv a (length a) ?st" by simp
  obtain m p q s where st: "?st = (m, p, q, s)" by (cases ?st) auto
  from d have pq: "q = p" by (simp add: diag_inv_def st)
  have "best_ok a a 0 (length a) 0 (length a) (snd ?st)"
    using flm_fold_ok[of a a 0 0 "length a" 0 "(Map.empty, 0, 0, 0)" "length a" "length a"]
    by (simp add: entry_ok_empty best_ok_def)
  then have "p + s \<le> length a" by (auto simp: st best_ok_def split: if_splits)
  then show ?thesis
    by (simp add: find_longest_match_def st pq extend_left_self extend_right_self)
qed

lemma matches_self: "matches a a = length a"
  by (subst matches_eq, subst mb_loop.simps, subst find_longest_match_self)
     (simp add: mb_loop.simps)

lemma cex_matches: "matches [''y'', ''x''] (replicate 200 ''x'') = 0"
  by code_simp

text \<open>
  C2 (counterexample). The ratio is not 0.0 exactly when the sequences share no element:
  with \<open>a = ["y", "x"]\<close> and \<open>b\<close> made of 200 lines \<open>"x"\<close>, the line \<open>"x"\<close> is in both
  sequences, but it is popular in \<open>b\<close> and left out of the index, no block is found and
  the ratio is 0.0.
\<close>

theorem ratio_zero_counterexample:
  "\<not> (ratio [''y'', ''x''] (replicate 200 ''x'') = 0
      \<longleftrightarrow> set [''y'', ''x''] \<inter> set (replicate 200 ''x'') = {})"
proof -
  have "ratio [''y'', ''x''] (replicate 200 ''x'') = 0"
    by (simp add: ratio_def calculate_ratio_def cex_matches)
  moreover have "''x'' \<in> set [''y'', ''x''] \<inter> set (replicate 200 ''x'')"
    by simp
  ultimately show ?thesis by blast
qed

lemma ratio_one_iff: "ratio a b = 1 \<longleftrightarrow> a = b"
proof
  assume r: "ratio a b = 1"
  show "a = b"
  proof (cases "length a + length b = 0")
    case True
    then show ?thesis by simp
  next
    case False
    with r have "2 * real (matches a b) = real (length a + length b)"
      by (simp add: ratio_def calculate_ratio_def)
    then have "2 * matches a b = length a + length b"
      by (metis of_nat_eq_iff of_nat_mult of_nat_numeral)
    with matches_le[of a b] have "matches a b = length a" "matches a b = length b"
      by simp_all
    then show ?thesis by (rule all_matched_equal)
  qed
next
  assume "a = b"
  then show "ratio a b = 1"
    by (simp add: ratio_def calculate_ratio_def matches_self)
qed

lemma ratio_zero_iff: "ratio a b = 0 \<longleftrightarrow> matches a b = 0 \<and> length a + length b \<noteq> 0"
  by (cases "length a + length b = 0")
     (auto simp add: ratio_def calculate_ratio_def simp del: of_nat_add)

text \<open>
  C2 (similarity ratio, amended). For all sequences \<open>a\<close> and \<open>b\<close> the ratio is
  \<open>2*M/T\<close>, with \<open>M\<close> the number of matched elements (the total length of the
  \<open>equal\<close> runs) and \<open>T = len(a) + len(b)\<close>, when \<open>T\<close> is not 0, and 1.0 when both
  sequences are empty; it lies between 0 and 1; it is 1.0 if and only if \<open>a = b\<close>; it
  is 0.0 when the sequences share no element and are not both empty; and when it is 0.0,
  every element the sequences share is popular in \<open>b\<close>, so that they share no element
  when \<open>b\<close> has fewer than 200 elements.
\<close>

theorem similarity_ratio:
  "ratio a b = (if length a + length b \<noteq> 0
                then 2 * real (matches a b) / real (length a + length b) else 1)
   \<and> matches a b = sum_list (map equal_len (get_opcodes a b))
   \<and> 0 \<le> ratio a b \<and> ratio a b \<le> 1
   \<and> (ratio a b = 1 \<longleftrightarrow> a = b)
   \<and> (set a \<inter> set b = {} \<and> (a \<noteq> [] \<or> b \<noteq> []) \<longrightarrow> ratio a b = 0)
   \<and> (ratio a b = 0 \<longrightarrow> (\<forall>x\<in>set a \<inter> set b. popular b x))
   \<and> (ratio a b = 0 \<and> length b < 200 \<longrightarrow> set a \<inter> set b = {})"
proof -
  have 1: "ratio a b = (if length a + length b \<noteq> 0
                then 2 * real (matches a b) / real (length a + length b) else 1)"
    by (simp add: ratio_def calculate_ratio_def)
  have 2: "0 \<le> ratio a b" by (simp add: ratio_def calculate_ratio_def)
  have "2 * matches a b \<le> length a + length b" using matches_le[of a b] by simp
  then have "2 * real (matches a b) \<le> real (length a + length b)"
    by (metis of_nat_le_iff of_nat_mult of_nat_numeral)
  then have 3: "ratio a b \<le> 1"
    by (cases "length a + length b = 0")
       (simp_all add: ratio_def calculate_ratio_def del: of_nat_add)
  have 4: "ratio a b = 0" if "set a \<inter> set b = {}" "a \<noteq> [] \<or> b \<noteq> []"
    using disjoint_matches[OF that(1)] that(2) by (simp add: ratio_zero_iff)
  have 5: "popular b x" if "ratio a b = 0" "x \<in> set a \<inter> set b" for x
  proof (rule ccontr)
    assume "\<not> popular b x"
    with that(2) have "0 < matches a b" by (intro shared_matches[of x]) auto
    with that(1) show False by (simp add: ratio_zero_iff)
  qed
  have 6: "set a \<inter> set b = {}" if "ratio a b = 0" "length b < 200"
    using 5[OF that(1)] not_popular_short[OF that(2)] by blast
  from 1 2 3 4 5 6 ratio_one_iff[of a b] matches_opcodes[of a b] show ?thesis
    by blast
qed

theorem similarity_ratio_witness:
  "set [''Art 1''] \<inter> set [''Art 2''] = {}
   \<and> [''Art 1''] \<noteq> []
   \<and> length [''Art 2''] < 200
   \<and> ratio [''Art 1''] [''Art 2''] = 0
   \<and> ratio [''Art 1''] [''Art 2''] \<noteq> 1"
proof -
  have d: "set [''Art 1''] \<inter> set [''Art 2''] = {}" by simp
  have n: "[''Art 1''] \<noteq> [] \<or> [''Art 2''] \<noteq> []" by simp
  have l: "length [''Art 2''] < 200" by simp
  have ne: "[''Art 1''] \<noteq> [''Art 2'']" by simp
  from similarity_ratio[of "[''Art 1'']" "[''Art 2'']"] d n
  have z: "ratio [''Art 1''] [''Art 2''] = 0" by blast
  from similarity_ratio[of "[''Art 1'']" "[''Art 2'']"] ne
  have "ratio [''Art 1''] [''Art 2''] \<noteq> 1" by blast
  with d l z show ?thesis by simp
qed

end
